theory Spec2Isabelle
  imports Main "HOL-Library.Word"
begin

section \<open>The 2048 board of \<^verbatim>\<open>main.go\<close>\<close>

text \<open>
  The program keeps one 4x4 grid of Go \<^verbatim>\<open>int\<close> values (\<^verbatim>\<open>[][]int\<close>, indexed
  \<^verbatim>\<open>grid[y][x]\<close>) and four "faces". A face is a slice of four singly linked lists of
  coordinate nodes; a linked list is modelled by the HOL list of its nodes, the
  \<^verbatim>\<open>next\<close> pointer of a node being the tail of the list and \<^verbatim>\<open>nil\<close> the empty list.
  A Go \<^verbatim>\<open>int\<close> is a 64-bit machine integer whose arithmetic wraps around; the only
  arithmetic of the program is the doubling \<^verbatim>\<open>*= 2\<close> and comparisons for equality.
\<close>

type_synonym val = "64 word"

datatype node = Node (nx: nat) (ny: nat)

type_synonym face = "node list list"

type_synonym grid = "val list list"

record board =
  grid :: grid
  top_face :: face
  right :: face
  bottom :: face
  left :: face

text \<open>
  \<^verbatim>\<open>grid[n.y][n.x]\<close> and the assignment \<^verbatim>\<open>grid[n.y][n.x] = v\<close>. Go panics on an index
  out of range. The grid of the program always has four rows of four cells and every
  node of its faces has both coordinates below 4 (lemma \<open>goodFace_createBoard\<close> below),
  so no access of the program is out of range; all results below are about such grids
  and faces.
\<close>

definition cell :: "grid \<Rightarrow> node \<Rightarrow> val" where
  "cell g n = g ! ny n ! nx n"

definition setCell :: "grid \<Rightarrow> node \<Rightarrow> val \<Rightarrow> grid" where
  "setCell g n v = g[ny n := (g ! ny n)[nx n := v]]"

text \<open>
  \<^verbatim>\<open>createBoard\<close>: four rows of four zeros, and the four faces. Each list starts with a
  head node and appends the nodes for \<^verbatim>\<open>j = 1, 2, 3\<close>.
\<close>

definition createBoard :: board where
  "createBoard =
     \<lparr> grid = replicate 4 (replicate 4 0),
       top_face = map (\<lambda>i. Node i 0 # map (\<lambda>j. Node i j) [1..<4]) [0..<4],
       right = map (\<lambda>i. Node 3 i # map (\<lambda>j. Node (3 - j) i) [1..<4]) [0..<4],
       bottom = map (\<lambda>i. Node i 3 # map (\<lambda>j. Node i (3 - j)) [1..<4]) [0..<4],
       left = map (\<lambda>i. Node 0 i # map (\<lambda>j. Node j i) [1..<4]) [0..<4] \<rparr>"

subsection \<open>tilt\<close>

text \<open>
  The two inner loops of the merge pass,
  \<^verbatim>\<open>for a != nil && grid[a.y][a.x] == 0 { a = a.next }\<close>:
  the pointer moves to the first node holding a non-zero value, or to \<^verbatim>\<open>nil\<close>.
\<close>

fun skipZeros :: "grid \<Rightarrow> node list \<Rightarrow> node list" where
  "skipZeros g [] = []"
| "skipZeros g (n # ns) = (if cell g n = 0 then skipZeros g ns else n # ns)"

lemma length_skipZeros: "length (skipZeros g a) \<le> length a"
  by (induction a) auto

text \<open>
  The merge pass \<^verbatim>\<open>for a != nil && b != nil { ... }\<close> of one list. Both
  \<^verbatim>\<open>continue\<close> statements are reached with \<^verbatim>\<open>a == nil\<close>, respectively
  \<^verbatim>\<open>b == nil\<close>, so the loop condition fails right after them and the grid is returned.
  The merge (\<open>mergeCells\<close>) writes 0 at \<^verbatim>\<open>a\<close> and then doubles the value at
  \<^verbatim>\<open>b\<close>; the cursor \<^verbatim>\<open>a\<close> moves to \<^verbatim>\<open>a.next\<close>.
\<close>

definition mergeCells :: "grid \<Rightarrow> node \<Rightarrow> node \<Rightarrow> grid" where
  "mergeCells g an bn = (let g1 = setCell g an 0 in setCell g1 bn (cell g1 bn * 2))"

function mergeLoop :: "grid \<Rightarrow> node list \<Rightarrow> node list \<Rightarrow> grid" where
  "mergeLoop g a b =
     (if a = [] \<or> b = [] then g
      else (case skipZeros g a of
              [] \<Rightarrow> g
            | an # anext \<Rightarrow>
                (case skipZeros g anext of
                   [] \<Rightarrow> g
                 | bn # bnext \<Rightarrow>
                     mergeLoop
                       (if cell g an = cell g bn then mergeCells g an bn else g)
                       anext (bn # bnext))))"
  by pat_completeness auto
termination
proof (relation "measure (\<lambda>(g, a, b). length a)")
  show "wf (measure (\<lambda>(g, a, b). length a))"
    by simp
next
  fix g :: grid and a b :: "node list" and an anext bn bnext
  assume "skipZeros g a = an # anext"
  then have "length anext < length (skipZeros g a)"
    by simp
  also have "\<dots> \<le> length a"
    by (rule length_skipZeros)
  finally show "((if cell g an = cell g bn then mergeCells g an bn else g,
                  anext, bn # bnext), (g, a, b))
                \<in> measure (\<lambda>(g, a, b). length a)"
    by simp
qed

declare mergeLoop.simps [simp del]

text \<open>
  The tuple assignment
  \<^verbatim>\<open>grid[ay][ax], grid[by][bx] = grid[by][bx], grid[ay][ax]\<close>:
  both right-hand sides are read before either cell is written.
\<close>

definition swapCells :: "grid \<Rightarrow> node \<Rightarrow> node \<Rightarrow> grid" where
  "swapCells g an bn =
     (let va = cell g an; vb = cell g bn in setCell (setCell g an vb) bn va)"

text \<open>
  The inner loop of the shift pass, \<^verbatim>\<open>for b != nil { ... }\<close>: the first non-zero cell
  after \<^verbatim>\<open>a\<close> is swapped into \<^verbatim>\<open>a\<close>, and the loop breaks.
\<close>

fun swapLoop :: "grid \<Rightarrow> node \<Rightarrow> node list \<Rightarrow> grid" where
  "swapLoop g an [] = g"
| "swapLoop g an (bn # bnext) =
     (if cell g bn \<noteq> 0 then swapCells g an bn else swapLoop g an bnext)"

text \<open>
  The shift pass \<^verbatim>\<open>for i := 0; i < 3; i++ { ... }\<close>, starting with \<^verbatim>\<open>a = list\<close>.
  Every list of a face of \<^verbatim>\<open>createBoard\<close> has four nodes (lemma
  \<open>goodFace_createBoard\<close> below), so \<^verbatim>\<open>a\<close> is never \<^verbatim>\<open>nil\<close> inside this loop; the
  model returns the grid there.
\<close>

function shiftLoop :: "nat \<Rightarrow> grid \<Rightarrow> node list \<Rightarrow> grid" where
  "shiftLoop i g a =
     (if i < 3
      then (case a of
              [] \<Rightarrow> g
            | an # anext \<Rightarrow>
                shiftLoop (i + 1) (if cell g an = 0 then swapLoop g an anext else g) anext)
      else g)"
  by pat_completeness auto
termination
  by (relation "measure (\<lambda>(i, g, a). 3 - i)") auto

declare shiftLoop.simps [simp del]

text \<open>The body of \<^verbatim>\<open>for _, list := range face\<close>: merge pass, then shift pass.\<close>

definition tiltList :: "grid \<Rightarrow> node list \<Rightarrow> grid" where
  "tiltList g list = shiftLoop 0 (mergeLoop g list list) list"

text \<open>\<^verbatim>\<open>tilt\<close> works on the grid of the board, one list of the face after the other.\<close>

fun tilt :: "grid \<Rightarrow> face \<Rightarrow> grid" where
  "tilt g [] = g"
| "tilt g (list # rest) = tilt (tiltList g list) rest"

subsection \<open>place, changed, createModel and Update\<close>

datatype error = IntnPanic

text \<open>
  \<^verbatim>\<open>r.Intn(n)\<close> panics when \<^verbatim>\<open>n <= 0\<close> and otherwise returns a number in \<^verbatim>\<open>[0, n)\<close>.
  The generator is seeded from the clock on every call of \<^verbatim>\<open>place\<close>; the model takes
  the raw draw \<open>r\<close> as an argument and reduces it into the range.
\<close>

definition Intn :: "nat \<Rightarrow> nat \<Rightarrow> error + nat" where
  "Intn r n = (if n = 0 then Inl IntnPanic else Inr (r mod n))"

text \<open>The empty cells collected by the two nested \<^verbatim>\<open>range\<close> loops of \<^verbatim>\<open>place\<close>.\<close>

definition options :: "grid \<Rightarrow> node list" where
  "options g =
     concat (map (\<lambda>y. concat (map (\<lambda>x. if g ! y ! x = 0 then [Node x y] else [])
                                  [0..<length (g ! y)]))
                 [0..<length g])"

definition place :: "nat \<Rightarrow> grid \<Rightarrow> error + grid" where
  "place r g =
     (case Intn r (length (options g)) of
        Inl e \<Rightarrow> Inl e
      | Inr i \<Rightarrow> Inr (setCell g (options g ! i) 2))"

definition changed :: "grid \<Rightarrow> grid \<Rightarrow> bool" where
  "changed g prev =
     list_ex (\<lambda>y. list_ex (\<lambda>x. g ! y ! x \<noteq> prev ! y ! x) [0..<length (g ! y)])
       [0..<length g]"

text \<open>\<^verbatim>\<open>createModel\<close> places two tiles on the fresh board, each with its own draw.\<close>

definition createModel :: "nat \<Rightarrow> nat \<Rightarrow> error + board" where
  "createModel r1 r2 =
     (case place r1 (grid createBoard) of
        Inl e \<Rightarrow> Inl e
      | Inr g1 \<Rightarrow>
          (case place r2 g1 of
             Inl e \<Rightarrow> Inl e
           | Inr g2 \<Rightarrow> Inr (createBoard\<lparr>grid := g2\<rparr>)))"

text \<open>
  A message is a key press, given by the string of \<^verbatim>\<open>msg.String()\<close>, or any other
  message. \<^verbatim>\<open>Update\<close> returns the model and a command.
\<close>

datatype msg = KeyMsg string | OtherMsg

datatype cmd = Quit | NoCmd

definition Update :: "nat \<Rightarrow> msg \<Rightarrow> board \<Rightarrow> error + board \<times> cmd" where
  "Update r m b =
     (let prev = grid b in
      (case m of
         KeyMsg s \<Rightarrow>
           if s = ''ctrl+c'' \<or> s = ''q'' then Inr (b, Quit)
           else
             (let g = (if s = ''left'' \<or> s = ''h'' then tilt (grid b) (left b)
                       else if s = ''up'' \<or> s = ''k'' then tilt (grid b) (top_face b)
                       else if s = ''right'' \<or> s = ''l'' then tilt (grid b) (right b)
                       else if s = ''down'' \<or> s = ''j'' then tilt (grid b) (bottom b)
                       else grid b)
              in if changed g prev
                 then (case place r g of
                         Inl e \<Rightarrow> Inl e
                       | Inr g' \<Rightarrow> Inr (b\<lparr>grid := g'\<rparr>, NoCmd))
                 else Inr (b\<lparr>grid := g\<rparr>, NoCmd))
       | OtherMsg \<Rightarrow>
           if changed (grid b) prev
           then (case place r (grid b) of
                   Inl e \<Rightarrow> Inl e
                 | Inr g' \<Rightarrow> Inr (b\<lparr>grid := g'\<rparr>, NoCmd))
           else Inr (b, NoCmd)))"

section \<open>Vocabulary of the specification\<close>

text \<open>
  The grid of the program always has four rows of four cells, and every node of a face
  has both coordinates below 4.
\<close>

definition inRange :: "node \<Rightarrow> bool" where
  "inRange n = (nx n < 4 \<and> ny n < 4)"

definition wf_grid :: "grid \<Rightarrow> bool" where
  "wf_grid g = (length g = 4 \<and> list_all (\<lambda>row. length row = 4) g)"

text \<open>
  The four directions, the face \<^verbatim>\<open>Update\<close> tilts for each of them, and the two keys
  bound to each direction.
\<close>

datatype direction = DirLeft | DirUp | DirRight | DirDown

fun faceOf :: "board \<Rightarrow> direction \<Rightarrow> face" where
  "faceOf b DirLeft = left b"
| "faceOf b DirUp = top_face b"
| "faceOf b DirRight = right b"
| "faceOf b DirDown = bottom b"

fun keys :: "direction \<Rightarrow> string list" where
  "keys DirLeft = [''left'', ''h'']"
| "keys DirUp = [''up'', ''k'']"
| "keys DirRight = [''right'', ''l'']"
| "keys DirDown = [''down'', ''j'']"

text \<open>
  One round of the driver for a direction: the part of \<^verbatim>\<open>Update\<close> that snapshots the
  grid, tilts, compares and places a tile (lemma \<open>Update_key\<close> shows that \<^verbatim>\<open>Update\<close>
  does exactly this on a key of the direction).
\<close>

definition step :: "nat \<Rightarrow> direction \<Rightarrow> board \<Rightarrow> error + board \<times> cmd" where
  "step r d b =
     (let g = tilt (grid b) (faceOf b d)
      in if changed g (grid b)
         then (case place r g of
                 Inl e \<Rightarrow> Inl e
               | Inr g' \<Rightarrow> Inr (b\<lparr>grid := g'\<rparr>, NoCmd))
         else Inr (b\<lparr>grid := g\<rparr>, NoCmd))"

text \<open>
  A face is good when it has lists of four nodes, sixteen nodes in all, every node in
  range and no node twice. The four faces of \<^verbatim>\<open>createBoard\<close> are good (lemma
  \<open>goodFace_createBoard\<close>), so its lists are the lines of the specification.
\<close>

definition goodFace :: "face \<Rightarrow> bool" where
  "goodFace f = (list_all (\<lambda>l. length l = 4) f \<and> distinct (concat f) \<and>
                 list_all inRange (concat f) \<and> length (concat f) = 16)"

text \<open>The sixteen coordinates in row-major order.\<close>

definition rowMajor :: "node list" where
  "rowMajor = concat (map (\<lambda>y. map (\<lambda>x. Node x y) [0..<4]) [0..<4])"

text \<open>The sum of all cell values, in the wrapping arithmetic of the cells.\<close>

definition gridSum :: "grid \<Rightarrow> val" where
  "gridSum g = sum_list (concat g)"

text \<open>
  The values of a line are compacted when nothing but zeros follows the leading
  non-zero values.
\<close>

definition compacted :: "val list \<Rightarrow> bool" where
  "compacted vs = list_all (\<lambda>v. v = 0) (dropWhile (\<lambda>v. v \<noteq> 0) vs)"

text \<open>No two neighbouring values of a line are equal and non-zero.\<close>

fun noMerge :: "val list \<Rightarrow> bool" where
  "noMerge (v # w # vs) = ((v = 0 \<or> v \<noteq> w) \<and> noMerge (w # vs))"
| "noMerge vs = True"

text \<open>
  The merges of a merge pass, in the order in which \<^verbatim>\<open>mergeLoop\<close> performs them: the
  pair of the node that is zeroed (\<^verbatim>\<open>a\<close>) and the node that is doubled (\<^verbatim>\<open>b\<close>).
  \<open>mergeTrace\<close> follows the recursion of \<open>mergeLoop\<close> and records a pair where
  \<open>mergeLoop\<close> calls \<open>mergeCells\<close>; replaying the recorded merges gives the grid of
  \<open>mergeLoop\<close> (lemma \<open>mergeLoop_replay\<close>). \<open>tiltTrace\<close> collects the merges of all
  lists of a face.
\<close>

function mergeTrace :: "grid \<Rightarrow> node list \<Rightarrow> node list \<Rightarrow> (node \<times> node) list" where
  "mergeTrace g a b =
     (if a = [] \<or> b = [] then []
      else (case skipZeros g a of
              [] \<Rightarrow> []
            | an # anext \<Rightarrow>
                (case skipZeros g anext of
                   [] \<Rightarrow> []
                 | bn # bnext \<Rightarrow>
                     (if cell g an = cell g bn then [(an, bn)] else []) @
                     mergeTrace
                       (if cell g an = cell g bn then mergeCells g an bn else g)
                       anext (bn # bnext))))"
  by pat_completeness auto
termination
proof (relation "measure (\<lambda>(g, a, b). length a)")
  show "wf (measure (\<lambda>(g, a, b). length a))"
    by simp
next
  fix g :: grid and a b :: "node list" and an anext bn bnext
  assume "skipZeros g a = an # anext"
  then have "length anext < length (skipZeros g a)"
    by simp
  also have "\<dots> \<le> length a"
    by (rule length_skipZeros)
  finally show "((if cell g an = cell g bn then mergeCells g an bn else g,
                  anext, bn # bnext), (g, a, b))
                \<in> measure (\<lambda>(g, a, b). length a)"
    by simp
qed

declare mergeTrace.simps [simp del]

fun tiltTrace :: "grid \<Rightarrow> face \<Rightarrow> (node \<times> node) list" where
  "tiltTrace g [] = []"
| "tiltTrace g (list # rest) = mergeTrace g list list @ tiltTrace (tiltList g list) rest"

text \<open>The cells that take part in the merges of a trace, with repetitions.\<close>

definition participants :: "(node \<times> node) list \<Rightarrow> node list" where
  "participants es = concat (map (\<lambda>(an, bn). [an, bn]) es)"

text \<open>
  In a trace, a zeroed node takes part in no later merge and a doubled node is not doubled
  again later.
\<close>

fun mergesOK :: "(node \<times> node) list \<Rightarrow> bool" where
  "mergesOK [] = True"
| "mergesOK ((an, bn) # es) =
     (an \<notin> fst ` set es \<and> an \<notin> snd ` set es \<and> bn \<notin> snd ` set es \<and> mergesOK es)"

text \<open>
  A value is at level \<open>j\<close> when it is a power of two \<open>2 ^ k\<close> with \<open>j \<le> k < 64\<close>.
  The invariant of the grid: every cell is zero or a power of two from 2 on, and for
  every \<open>j\<close> the number of cells at level \<open>j\<close>, if there is one, is at most
  \<open>17 - j\<close>. It bounds the tiles by \<open>2 ^ 16\<close>, far from the wrap-around of the cells.
\<close>

definition level :: "val \<Rightarrow> nat \<Rightarrow> bool" where
  "level v j = (\<exists>k. j \<le> k \<and> k < 64 \<and> v = 2 ^ k)"

definition atLevel :: "grid \<Rightarrow> nat \<Rightarrow> node set" where
  "atLevel g j = {n. inRange n \<and> level (cell g n) j}"

definition tiles :: "grid \<Rightarrow> bool" where
  "tiles g = (wf_grid g \<and>
     (\<forall>n. inRange n \<longrightarrow> cell g n = 0 \<or> level (cell g n) 1) \<and>
     (\<forall>j. 1 \<le> j \<and> atLevel g j \<noteq> {} \<longrightarrow> card (atLevel g j) + j \<le> 17))"

text \<open>A board with such a grid and the faces of \<^verbatim>\<open>createBoard\<close>.\<close>

definition boardOK :: "board \<Rightarrow> bool" where
  "boardOK b = (tiles (grid b) \<and> (\<forall>d. faceOf b d = faceOf createBoard d))"

text \<open>
  The boards of a run: \<^verbatim>\<open>createModel\<close> makes the first one, and \<^verbatim>\<open>Update\<close> makes the
  next one from each message, with arbitrary draws of the random generator.
\<close>

inductive reachable :: "board \<Rightarrow> bool" where
  start: "createModel r1 r2 = Inr b \<Longrightarrow> reachable b"
| update: "reachable b \<Longrightarrow> Update r m b = Inr (b', c) \<Longrightarrow> reachable b'"

section \<open>Grids, cells and faces\<close>

lemma wf_grid_nth: "wf_grid g \<Longrightarrow> y < 4 \<Longrightarrow> length (g ! y) = 4"
  by (simp add: wf_grid_def list_all_length)

lemma wf_setCell: "wf_grid g \<Longrightarrow> wf_grid (setCell g n v)"
  by (cases "ny n < 4")
     (auto simp: wf_grid_def setCell_def list_all_length nth_list_update)

lemma cell_setCell:
  "wf_grid g \<Longrightarrow> inRange n \<Longrightarrow> inRange m \<Longrightarrow>
   cell (setCell g n v) m = (if m = n then v else cell g m)"
  by (cases n; cases m)
     (auto simp: cell_def setCell_def inRange_def wf_grid_def list_all_length nth_list_update)

lemma grid_eqI:
  assumes "wf_grid g" "wf_grid h" "\<And>n. inRange n \<Longrightarrow> cell g n = cell h n"
  shows "g = h"
proof (rule nth_equalityI)
  show "length g = length h" using assms by (simp add: wf_grid_def)
next
  fix y assume y: "y < length g"
  then have y4: "y < 4" using assms by (simp add: wf_grid_def)
  show "g ! y = h ! y"
  proof (rule nth_equalityI)
    show "length (g ! y) = length (h ! y)" using assms y4 by (simp add: wf_grid_nth)
  next
    fix x assume "x < length (g ! y)"
    then have "x < 4" using assms y4 by (simp add: wf_grid_nth)
    then have "inRange (Node x y)" using y4 by (simp add: inRange_def)
    from assms(3)[OF this] show "g ! y ! x = h ! y ! x" by (simp add: cell_def)
  qed
qed

lemma skipZeros_Cons:
  "skipZeros g a = an # anext \<Longrightarrow>
   cell g an \<noteq> 0 \<and> (\<exists>pre. a = pre @ an # anext \<and> (\<forall>n\<in>set pre. cell g n = 0))"
proof (induction a)
  case Nil
  then show ?case by simp
next
  case (Cons n ns)
  show ?case
  proof (cases "cell g n = 0")
    case True
    with Cons obtain pre where "ns = pre @ an # anext" "\<forall>n\<in>set pre. cell g n = 0" "cell g an \<noteq> 0"
      by auto
    with True have "n # ns = (n # pre) @ an # anext \<and> (\<forall>m\<in>set (n # pre). cell g m = 0)"
      by simp
    with \<open>cell g an \<noteq> 0\<close> show ?thesis by blast
  next
    case False
    with Cons.prems have "n = an" "ns = anext" by auto
    with False show ?thesis by auto
  qed
qed

lemma skipZeros_Nil: "skipZeros g a = [] \<longleftrightarrow> (\<forall>n\<in>set a. cell g n = 0)"
  by (induction a) auto

lemma upt4: "[0..<4] = [0, 1, 2, 3]" "[Suc 0..<4] = [1, 2, 3]"
  by (simp_all add: upt_rec)

lemma left_createBoard:
  "left createBoard =
    [[Node 0 0, Node 1 0, Node 2 0, Node 3 0], [Node 0 1, Node 1 1, Node 2 1, Node 3 1],
     [Node 0 2, Node 1 2, Node 2 2, Node 3 2], [Node 0 3, Node 1 3, Node 2 3, Node 3 3]]"
  by (simp add: createBoard_def upt4)

lemma right_createBoard:
  "right createBoard =
    [[Node 3 0, Node 2 0, Node 1 0, Node 0 0], [Node 3 1, Node 2 1, Node 1 1, Node 0 1],
     [Node 3 2, Node 2 2, Node 1 2, Node 0 2], [Node 3 3, Node 2 3, Node 1 3, Node 0 3]]"
  by (simp add: createBoard_def upt4)

lemma top_createBoard:
  "top_face createBoard =
    [[Node 0 0, Node 0 1, Node 0 2, Node 0 3], [Node 1 0, Node 1 1, Node 1 2, Node 1 3],
     [Node 2 0, Node 2 1, Node 2 2, Node 2 3], [Node 3 0, Node 3 1, Node 3 2, Node 3 3]]"
  by (simp add: createBoard_def upt4)

lemma bottom_createBoard:
  "bottom createBoard =
    [[Node 0 3, Node 0 2, Node 0 1, Node 0 0], [Node 1 3, Node 1 2, Node 1 1, Node 1 0],
     [Node 2 3, Node 2 2, Node 2 1, Node 2 0], [Node 3 3, Node 3 2, Node 3 1, Node 3 0]]"
  by (simp add: createBoard_def upt4)

lemmas faces_createBoard =
  left_createBoard right_createBoard top_createBoard bottom_createBoard

lemma goodFace_createBoard: "goodFace (faceOf createBoard d)"
  by (cases d) (simp_all add: goodFace_def faces_createBoard inRange_def)

lemma inRange_iff: "inRange n \<longleftrightarrow> nx n \<in> {0, 1, 2, 3} \<and> ny n \<in> {0, 1, 2, 3}"
  unfolding inRange_def by auto

lemma rowMajor_left: "rowMajor = concat (left createBoard)"
  by (simp add: rowMajor_def left_createBoard upt4)

lemma set_rowMajor: "set rowMajor = {n. inRange n}"
proof -
  have "inRange n \<longleftrightarrow> n \<in> set rowMajor" for n
    by (cases n) (auto simp: rowMajor_def upt4 inRange_iff)
  then show ?thesis by auto
qed

lemma distinct_rowMajor: "distinct rowMajor" and length_rowMajor: "length rowMajor = 16"
  by (simp_all add: rowMajor_def upt4)

lemma finite_inRange: "finite {n. inRange n}"
  unfolding set_rowMajor[symmetric] by simp

lemma card_inRange: "card {n. inRange n} = 16"
  unfolding set_rowMajor[symmetric] using distinct_card[OF distinct_rowMajor]
  by (simp add: length_rowMajor)

lemma goodFace_set:
  assumes "goodFace f"
  shows "set (concat f) = {n. inRange n}"
proof (rule card_subset_eq)
  show "finite {n. inRange n}" by (rule finite_inRange)
  show "set (concat f) \<subseteq> {n. inRange n}"
    using assms unfolding goodFace_def list_all_iff by blast
  have "card (set (concat f)) = 16"
    using assms distinct_card[of "concat f"] by (simp add: goodFace_def)
  then show "card (set (concat f)) = card {n. inRange n}"
    by (simp add: card_inRange)
qed

lemma goodFace_line:
  assumes "goodFace f" "l \<in> set f"
  shows "distinct l" "length l = 4" "\<And>n. n \<in> set l \<Longrightarrow> inRange n"
proof -
  from assms(2) obtain pre post where f: "f = pre @ l # post"
    by (auto simp: in_set_conv_decomp)
  from assms(1) show "distinct l" by (simp add: goodFace_def f)
  from assms show "length l = 4" by (simp add: goodFace_def list_all_iff)
  fix n assume "n \<in> set l"
  with assms show "inRange n"
    unfolding goodFace_def list_all_iff by auto
qed

section \<open>Invariant rules for the loops of tilt\<close>

text \<open>
  Whatever holds of the grid before \<^verbatim>\<open>tilt\<close> and is kept by every merge of two equal
  non-zero cells and by every swap of an empty cell with a non-zero one holds after it.
\<close>

lemma wf_mergeCells: "wf_grid g \<Longrightarrow> wf_grid (mergeCells g an bn)"
  by (simp add: mergeCells_def Let_def wf_setCell)

lemma wf_swapCells: "wf_grid g \<Longrightarrow> wf_grid (swapCells g an bn)"
  by (simp add: swapCells_def Let_def wf_setCell)

lemma mergeLoop_rule:
  assumes step: "\<And>h an bn. P h \<Longrightarrow> wf_grid h \<Longrightarrow> an \<in> set a0 \<Longrightarrow> bn \<in> set a0 \<Longrightarrow>
                  an \<noteq> bn \<Longrightarrow> cell h an \<noteq> 0 \<Longrightarrow> cell h bn = cell h an \<Longrightarrow>
                  P (mergeCells h an bn)"
  shows "P g \<Longrightarrow> wf_grid g \<Longrightarrow> distinct a \<Longrightarrow> set a \<subseteq> set a0 \<Longrightarrow>
         P (mergeLoop g a b) \<and> wf_grid (mergeLoop g a b)"
proof (induction g a b rule: mergeLoop.induct)
  case (1 g a b)
  show ?case
  proof (cases "a = [] \<or> b = []")
    case True
    then have "mergeLoop g a b = g"
      by (subst mergeLoop.simps) simp
    with "1.prems" show ?thesis by simp
  next
    case nonnil: False
    show ?thesis
    proof (cases "skipZeros g a")
      case Nil
      with nonnil have "mergeLoop g a b = g"
        by (subst mergeLoop.simps) simp
      with "1.prems" show ?thesis by simp
    next
      case a1: (Cons an anext)
      from skipZeros_Cons[OF a1] obtain pre where
        an0: "cell g an \<noteq> 0" and a: "a = pre @ an # anext"
        by blast
      show ?thesis
      proof (cases "skipZeros g anext")
        case Nil
        with nonnil a1 have "mergeLoop g a b = g"
          by (subst mergeLoop.simps) simp
        with "1.prems" show ?thesis by simp
      next
        case b1: (Cons bn bnext)
        from skipZeros_Cons[OF b1] obtain pre' where
          bn0: "cell g bn \<noteq> 0" and anext: "anext = pre' @ bn # bnext"
          by blast
        let ?g' = "if cell g an = cell g bn then mergeCells g an bn else g"
        have unfold: "mergeLoop g a b = mergeLoop ?g' anext (bn # bnext)"
          using nonnil a1 b1 by (subst mergeLoop.simps) simp
        have an_in: "an \<in> set a0" and bn_in: "bn \<in> set a0"
          using "1.prems"(4) a anext by auto
        have neq: "an \<noteq> bn"
          using "1.prems"(3) a anext by auto
        have P': "P ?g'"
          using step[OF "1.prems"(1,2) an_in bn_in neq an0] "1.prems"(1) by simp
        have wf': "wf_grid ?g'"
          using "1.prems"(2) by (simp add: wf_mergeCells)
        have d': "distinct anext" and s': "set anext \<subseteq> set a0"
          using "1.prems"(3,4) a by auto
        from "1.IH"[OF nonnil a1 b1 P' wf' d' s'] unfold show ?thesis
          by simp
      qed
    qed
  qed
qed

lemma swapLoop_rule:
  assumes step: "\<And>bn. bn \<in> set bs \<Longrightarrow> cell g bn \<noteq> 0 \<Longrightarrow> P (swapCells g an bn)"
    and "P g"
  shows "P (swapLoop g an bs)"
  using assms by (induction bs) auto

lemma wf_swapLoop: "wf_grid g \<Longrightarrow> wf_grid (swapLoop g an bs)"
  by (induction bs) (auto simp: wf_swapCells)

lemma shiftLoop_rule:
  assumes step: "\<And>h an bn. P h \<Longrightarrow> wf_grid h \<Longrightarrow> an \<in> set a0 \<Longrightarrow> bn \<in> set a0 \<Longrightarrow>
                  an \<noteq> bn \<Longrightarrow> cell h an = 0 \<Longrightarrow> cell h bn \<noteq> 0 \<Longrightarrow>
                  P (swapCells h an bn)"
  shows "P g \<Longrightarrow> wf_grid g \<Longrightarrow> distinct a \<Longrightarrow> set a \<subseteq> set a0 \<Longrightarrow>
         P (shiftLoop i g a) \<and> wf_grid (shiftLoop i g a)"
proof (induction i g a rule: shiftLoop.induct)
  case (1 i g a)
  show ?case
  proof (cases "i < 3")
    case False
    then have "shiftLoop i g a = g"
      by (subst shiftLoop.simps) simp
    with "1.prems" show ?thesis by simp
  next
    case lt: True
    show ?thesis
    proof (cases a)
      case Nil
      with lt have "shiftLoop i g a = g"
        by (subst shiftLoop.simps) simp
      with "1.prems" show ?thesis by simp
    next
      case a: (Cons an anext)
      let ?g' = "if cell g an = 0 then swapLoop g an anext else g"
      have unfold: "shiftLoop i g a = shiftLoop (i + 1) ?g' anext"
        using lt a by (subst shiftLoop.simps) simp
      have P': "P ?g'"
      proof (cases "cell g an = 0")
        case True
        have "P (swapLoop g an anext)"
        proof (rule swapLoop_rule)
          fix bn assume "bn \<in> set anext" "cell g bn \<noteq> 0"
          then show "P (swapCells g an bn)"
            using step[OF "1.prems"(1,2) _ _ _ True, of bn] "1.prems"(3,4) a by auto
        qed (rule "1.prems"(1))
        with True show ?thesis by simp
      next
        case False
        with "1.prems"(1) show ?thesis by simp
      qed
      have wf': "wf_grid ?g'"
        using "1.prems"(2) by (simp add: wf_swapLoop)
      have d': "distinct anext" and s': "set anext \<subseteq> set a0"
        using "1.prems"(3,4) a by auto
      from "1.IH"[OF lt a P' wf' d' s'] unfold show ?thesis
        by simp
    qed
  qed
qed

lemma tiltList_rule:
  assumes merge: "\<And>h an bn. P h \<Longrightarrow> wf_grid h \<Longrightarrow> an \<in> set ns \<Longrightarrow> bn \<in> set ns \<Longrightarrow>
                  an \<noteq> bn \<Longrightarrow> cell h an \<noteq> 0 \<Longrightarrow> cell h bn = cell h an \<Longrightarrow>
                  P (mergeCells h an bn)"
    and swap: "\<And>h an bn. P h \<Longrightarrow> wf_grid h \<Longrightarrow> an \<in> set ns \<Longrightarrow> bn \<in> set ns \<Longrightarrow>
                  an \<noteq> bn \<Longrightarrow> cell h an = 0 \<Longrightarrow> cell h bn \<noteq> 0 \<Longrightarrow>
                  P (swapCells h an bn)"
    and "P g" "wf_grid g" "distinct ns"
  shows "P (tiltList g ns) \<and> wf_grid (tiltList g ns)"
proof -
  have 1: "P (mergeLoop g ns ns) \<and> wf_grid (mergeLoop g ns ns)"
    by (rule mergeLoop_rule[where ?a0.0 = ns and P = P]) (use assms in auto)
  show ?thesis
    unfolding tiltList_def
    by (rule shiftLoop_rule[where ?a0.0 = ns and P = P]) (use assms 1 in auto)
qed

lemma tilt_rule:
  assumes merge: "\<And>h an bn. P h \<Longrightarrow> wf_grid h \<Longrightarrow> an \<in> set (concat f) \<Longrightarrow>
                  bn \<in> set (concat f) \<Longrightarrow>
                  an \<noteq> bn \<Longrightarrow> cell h an \<noteq> 0 \<Longrightarrow> cell h bn = cell h an \<Longrightarrow>
                  P (mergeCells h an bn)"
    and swap: "\<And>h an bn. P h \<Longrightarrow> wf_grid h \<Longrightarrow> an \<in> set (concat f) \<Longrightarrow>
                  bn \<in> set (concat f) \<Longrightarrow>
                  an \<noteq> bn \<Longrightarrow> cell h an = 0 \<Longrightarrow> cell h bn \<noteq> 0 \<Longrightarrow>
                  P (swapCells h an bn)"
  shows "P g \<Longrightarrow> wf_grid g \<Longrightarrow> \<forall>ns\<in>set f. distinct ns \<Longrightarrow>
         P (tilt g f) \<and> wf_grid (tilt g f)"
  using assms
proof (induction f arbitrary: g)
  case Nil
  then show ?case by simp
next
  case (Cons ns f)
  have "P (tiltList g ns) \<and> wf_grid (tiltList g ns)"
    by (rule tiltList_rule[where P = P]) (use Cons.prems in auto)
  then show ?case
    using Cons.IH[of "tiltList g ns"] Cons.prems by auto
qed

lemma cell_mergeCells:
  "wf_grid g \<Longrightarrow> inRange an \<Longrightarrow> inRange bn \<Longrightarrow> inRange m \<Longrightarrow> an \<noteq> bn \<Longrightarrow>
   cell (mergeCells g an bn) m =
     (if m = bn then cell g bn * 2 else if m = an then 0 else cell g m)"
  by (simp add: mergeCells_def Let_def cell_setCell wf_setCell)

lemma cell_swapCells:
  "wf_grid g \<Longrightarrow> inRange an \<Longrightarrow> inRange bn \<Longrightarrow> inRange m \<Longrightarrow>
   cell (swapCells g an bn) m =
     (if m = bn then cell g an else if m = an then cell g bn else cell g m)"
  by (simp add: swapCells_def Let_def cell_setCell wf_setCell)

lemma wf_tiltList: "wf_grid g \<Longrightarrow> distinct ns \<Longrightarrow> wf_grid (tiltList g ns)"
  using tiltList_rule[where P = "\<lambda>_. True" and g = g and ns = ns] by simp

lemma tiltList_frame:
  assumes "wf_grid g" "distinct ns" "\<forall>n\<in>set ns. inRange n" "inRange m" "m \<notin> set ns"
  shows "cell (tiltList g ns) m = cell g m"
proof -
  have "cell (tiltList g ns) m = cell g m \<and> wf_grid (tiltList g ns)"
  proof (rule tiltList_rule[where P = "\<lambda>h. cell h m = cell g m"])
    fix h an bn
    assume "cell h m = cell g m" "wf_grid h" "an \<in> set ns" "bn \<in> set ns" "an \<noteq> bn"
    then show "cell (mergeCells h an bn) m = cell g m"
      using assms(3-5) by (auto simp: cell_mergeCells)
  next
    fix h an bn
    assume "cell h m = cell g m" "wf_grid h" "an \<in> set ns" "bn \<in> set ns"
    then show "cell (swapCells h an bn) m = cell g m"
      using assms(3-5) by (auto simp: cell_swapCells)
  qed (use assms in auto)
  then show ?thesis ..
qed

lemma tilt_frame:
  assumes "wf_grid g" "\<forall>ns\<in>set f. distinct ns" "\<forall>n\<in>set (concat f). inRange n"
    "inRange m" "m \<notin> set (concat f)"
  shows "cell (tilt g f) m = cell g m"
proof -
  have "cell (tilt g f) m = cell g m \<and> wf_grid (tilt g f)"
  proof (rule tilt_rule[where P = "\<lambda>h. cell h m = cell g m"])
    fix h an bn
    assume *: "cell h m = cell g m" "wf_grid h" "an \<in> set (concat f)"
      "bn \<in> set (concat f)" "an \<noteq> bn"
    then have "inRange an" "inRange bn" "m \<noteq> an" "m \<noteq> bn"
      using assms(3,5) by blast+
    with * assms(4) show "cell (mergeCells h an bn) m = cell g m"
      by (simp add: cell_mergeCells)
  next
    fix h an bn
    assume *: "cell h m = cell g m" "wf_grid h" "an \<in> set (concat f)"
      "bn \<in> set (concat f)"
    then have "inRange an" "inRange bn" "m \<noteq> an" "m \<noteq> bn"
      using assms(3,5) by blast+
    with * assms(4) show "cell (swapCells h an bn) m = cell g m"
      by (simp add: cell_swapCells)
  qed (use assms in auto)
  then show ?thesis ..
qed

text \<open>The line of the final grid is what tiltList made of it, starting from a grid that
  has the cells of the original grid on that line.\<close>

lemma tilt_line:
  assumes "wf_grid g" "distinct (concat f)" "\<forall>n\<in>set (concat f). inRange n" "l \<in> set f"
  shows "\<exists>h. wf_grid h \<and> map (cell h) l = map (cell g) l \<and>
             map (cell (tilt g f)) l = map (cell (tiltList h l)) l"
  using assms
proof (induction f arbitrary: g)
  case Nil
  then show ?case by simp
next
  case (Cons ns f)
  have dns: "distinct ns" and rns: "\<forall>n\<in>set ns. inRange n"
    using Cons.prems by auto
  have wf1: "wf_grid (tiltList g ns)"
    using Cons.prems(1) dns by (rule wf_tiltList)
  have df: "distinct (concat f)" and rf: "\<forall>n\<in>set (concat f). inRange n"
    using Cons.prems by auto
  show ?case
  proof (cases "l \<in> set f")
    case True
    from Cons.IH[OF wf1 df rf True] obtain h where
      h: "wf_grid h" "map (cell h) l = map (cell (tiltList g ns)) l"
         "map (cell (tilt (tiltList g ns) f)) l = map (cell (tiltList h l)) l"
      by blast
    have "set l \<inter> set ns = {}"
      using True Cons.prems(2) by auto
    then have "map (cell (tiltList g ns)) l = map (cell g) l"
      using tiltList_frame[OF Cons.prems(1) dns rns] rf True by auto
    with h show ?thesis by auto
  next
    case False
    with Cons.prems(4) have l: "l = ns" by simp
    have dl: "\<forall>ns\<in>set f. distinct ns"
      using df by (auto simp: distinct_concat_iff)
    have "cell (tilt h f) m = cell h m" if "wf_grid h" "m \<in> set ns" for h m
      using tilt_frame[OF that(1) dl rf, of m] that(2) rns Cons.prems(2) by auto
    from this[OF wf1] have "map (cell (tilt g (ns # f))) l = map (cell (tiltList g l)) l"
      by (simp add: l)
    with Cons.prems(1) show ?thesis by blast
  qed
qed

lemma mergeLoop_Nil: "mergeLoop g [] b = g"
  by (subst mergeLoop.simps) simp

lemma mergeLoop_bNil: "mergeLoop g a [] = g"
  by (subst mergeLoop.simps) simp

lemma mergeLoop_b: "b \<noteq> [] \<Longrightarrow> b' \<noteq> [] \<Longrightarrow> mergeLoop g a b = mergeLoop g a b'"
  by (subst mergeLoop.simps, subst (2) mergeLoop.simps) simp

lemma mergeLoop_Cons:
  "b \<noteq> [] \<Longrightarrow>
   mergeLoop g (n # ns) b =
     (if cell g n = 0 then mergeLoop g ns b
      else (case skipZeros g ns of
              [] \<Rightarrow> g
            | bn # bnext \<Rightarrow>
                mergeLoop (if cell g n = cell g bn then mergeCells g n bn else g) ns (bn # bnext)))"
  by (subst mergeLoop.simps, subst (2) mergeLoop.simps) (auto split: list.splits)

lemma shiftLoop_done: "\<not> i < 3 \<Longrightarrow> shiftLoop i g a = g"
  by (subst shiftLoop.simps) simp

lemma shiftLoop_Cons:
  "i < 3 \<Longrightarrow> shiftLoop i g (an # anext) =
     shiftLoop (i + 1) (if cell g an = 0 then swapLoop g an anext else g) anext"
  by (subst shiftLoop.simps) simp

lemma distinct4:
  assumes "distinct [n0, n1, n2, n3]"
  shows "n0 \<noteq> n1" "n0 \<noteq> n2" "n0 \<noteq> n3" "n1 \<noteq> n2" "n1 \<noteq> n3" "n2 \<noteq> n3"
    "n1 \<noteq> n0" "n2 \<noteq> n0" "n3 \<noteq> n0" "n2 \<noteq> n1" "n3 \<noteq> n1" "n3 \<noteq> n2"
  using assms by auto

lemma shift_compacts:
  assumes "wf_grid g" "distinct [n0, n1, n2, n3]" "inRange n0" "inRange n1" "inRange n2" "inRange n3"
  shows "compacted (map (cell (shiftLoop 0 g [n0, n1, n2, n3])) [n0, n1, n2, n3])"
  using assms(1,3-) distinct4[OF assms(2)]
  by (simp add: shiftLoop_Cons shiftLoop_done compacted_def cell_swapCells wf_swapCells)

lemma list4: "length xs = 4 \<Longrightarrow> \<exists>a b c d. xs = [a, b, c, d]"
  by (auto simp: length_Suc_conv numeral_eq_Suc)

lemma wf_grid_rows:
  assumes "wf_grid g"
  shows "\<exists>r0 r1 r2 r3. g = [r0, r1, r2, r3] \<and> length r0 = 4 \<and> length r1 = 4 \<and>
           length r2 = 4 \<and> length r3 = 4"
proof -
  from assms obtain r0 r1 r2 r3 where g: "g = [r0, r1, r2, r3]"
    using list4[of g] by (auto simp: wf_grid_def)
  with assms show ?thesis by (auto simp: wf_grid_def)
qed

lemma gridSum_cells:
  assumes "wf_grid g"
  shows "gridSum g = sum (cell g) {n. inRange n}"
proof -
  from wf_grid_rows[OF assms] obtain r0 r1 r2 r3 where
    g: "g = [r0, r1, r2, r3]" and l: "length r0 = 4" "length r1 = 4" "length r2 = 4" "length r3 = 4"
    by blast
  from l obtain a0 a1 a2 a3 b0 b1 b2 b3 c0 c1 c2 c3 d0 d1 d2 d3 where
    r: "r0 = [a0, a1, a2, a3]" "r1 = [b0, b1, b2, b3]" "r2 = [c0, c1, c2, c3]"
       "r3 = [d0, d1, d2, d3]"
    using list4[of r0] list4[of r1] list4[of r2] list4[of r3] by auto
  have "sum (cell g) {n. inRange n} = sum_list (map (cell g) rowMajor)"
    unfolding set_rowMajor[symmetric]
    by (rule sum.distinct_set_conv_list[OF distinct_rowMajor])
  also have "\<dots> = gridSum g"
    by (simp add: g r rowMajor_def upt4 cell_def gridSum_def)
  finally show ?thesis by simp
qed

lemma sum_two:
  fixes f :: "node \<Rightarrow> val"
  assumes "finite S" "a \<in> S" "b \<in> S" "a \<noteq> b"
  shows "sum f S = f a + f b + sum f (S - {a, b})"
proof -
  have "sum f S = f a + sum f (S - {a})"
    using assms by (simp add: sum.remove)
  also have "sum f (S - {a}) = f b + sum f (S - {a} - {b})"
    using assms by (simp add: sum.remove)
  also have "S - {a} - {b} = S - {a, b}" by auto
  finally show ?thesis by (simp add: add.assoc)
qed

lemma gridSum_mergeCells:
  assumes "wf_grid g" "inRange an" "inRange bn" "an \<noteq> bn" "cell g bn = cell g an"
  shows "gridSum (mergeCells g an bn) = gridSum g"
proof -
  let ?S = "{n. inRange n}"
  let ?g' = "mergeCells g an bn"
  have rest: "sum (cell ?g') (?S - {an, bn}) = sum (cell g) (?S - {an, bn})"
    by (rule sum.cong) (use assms in \<open>auto simp: cell_mergeCells\<close>)
  have "gridSum ?g' = cell ?g' an + cell ?g' bn + sum (cell ?g') (?S - {an, bn})"
    using assms by (simp add: gridSum_cells wf_mergeCells sum_two finite_inRange)
  also have "\<dots> = cell g an + cell g bn + sum (cell g) (?S - {an, bn})"
    using assms by (simp add: rest cell_mergeCells)
  also have "\<dots> = gridSum g"
    using assms by (simp add: gridSum_cells sum_two finite_inRange)
  finally show ?thesis .
qed

lemma gridSum_swapCells:
  assumes "wf_grid g" "inRange an" "inRange bn" "an \<noteq> bn"
  shows "gridSum (swapCells g an bn) = gridSum g"
proof -
  let ?S = "{n. inRange n}"
  let ?g' = "swapCells g an bn"
  have rest: "sum (cell ?g') (?S - {an, bn}) = sum (cell g) (?S - {an, bn})"
    by (rule sum.cong) (use assms in \<open>auto simp: cell_swapCells\<close>)
  have "gridSum ?g' = cell ?g' an + cell ?g' bn + sum (cell ?g') (?S - {an, bn})"
    using assms by (simp add: gridSum_cells wf_swapCells sum_two finite_inRange)
  also have "\<dots> = cell g an + cell g bn + sum (cell g) (?S - {an, bn})"
    using assms by (simp add: rest cell_swapCells)
  also have "\<dots> = gridSum g"
    using assms by (simp add: gridSum_cells sum_two finite_inRange)
  finally show ?thesis .
qed

lemma goodFace_distinct_lines: "goodFace f \<Longrightarrow> \<forall>ns\<in>set f. distinct ns"
  by (auto simp: goodFace_def distinct_concat_iff)

lemma goodFace_inRange: "goodFace f \<Longrightarrow> n \<in> set (concat f) \<Longrightarrow> inRange n"
  unfolding goodFace_def list_all_iff by blast

lemma wf_tilt: "wf_grid g \<Longrightarrow> goodFace f \<Longrightarrow> wf_grid (tilt g f)"
  using tilt_rule[where P = "\<lambda>_. True" and g = g and f = f] goodFace_distinct_lines[of f]
  by simp

lemma changed_iff:
  "changed g prev \<longleftrightarrow> (\<exists>y<length g. \<exists>x<length (g ! y). g ! y ! x \<noteq> prev ! y ! x)"
  unfolding changed_def list_ex_iff by (simp add: Bex_def)

lemma changed_wf:
  assumes "wf_grid g" "wf_grid h"
  shows "changed g h \<longleftrightarrow> g \<noteq> h"
proof
  assume "changed g h"
  then show "g \<noteq> h" by (auto simp: changed_iff)
next
  assume "g \<noteq> h"
  with grid_eqI[OF assms] obtain n where n: "inRange n" "cell g n \<noteq> cell h n"
    by blast
  then have "ny n < length g" "nx n < length (g ! ny n)"
    using assms(1) by (auto simp: inRange_def wf_grid_def list_all_length)
  with n(2) show "changed g h"
    unfolding changed_iff cell_def by blast
qed

lemma changed_same: "\<not> changed g g"
  by (simp add: changed_iff)

lemma set_options:
  "set (options g) = {n. ny n < length g \<and> nx n < length (g ! ny n) \<and> cell g n = 0}"
proof -
  have "n \<in> set (options g) \<longleftrightarrow> ny n < length g \<and> nx n < length (g ! ny n) \<and> cell g n = 0" for n
    by (cases n) (auto simp: options_def cell_def split: if_splits)
  then show ?thesis by blast
qed

lemma set_options_wf: "wf_grid g \<Longrightarrow> set (options g) = {n. inRange n \<and> cell g n = 0}"
  by (auto simp: set_options inRange_def wf_grid_def list_all_length)

lemma Update_key: "s \<in> set (keys d) \<Longrightarrow> Update r (KeyMsg s) b = step r d b"
  by (cases d) (auto simp: Update_def step_def Let_def)

lemma Update_cases:
  "Update r m b = Inr (b, Quit) \<or> Update r m b = Inr (b, NoCmd) \<or> (\<exists>d. Update r m b = step r d b)"
proof (cases m)
  case OtherMsg
  then show ?thesis by (simp add: Update_def changed_same)
next
  case (KeyMsg s)
  show ?thesis
  proof (cases "\<exists>d. s \<in> set (keys d)")
    case True
    then show ?thesis using Update_key KeyMsg by blast
  next
    case False
    then have "s \<notin> set (keys DirLeft)" "s \<notin> set (keys DirUp)" "s \<notin> set (keys DirRight)"
      "s \<notin> set (keys DirDown)" by blast+
    then show ?thesis
      using KeyMsg by (simp add: Update_def changed_same)
  qed
qed

lemma place_Inl: "place r g = Inl e \<longleftrightarrow> options g = []"
  by (cases e) (simp add: place_def Intn_def)

lemma place_Inr:
  "options g \<noteq> [] \<Longrightarrow> place r g = Inr (setCell g (options g ! (r mod length (options g))) 2)"
  by (simp add: place_def Intn_def)

lemma tilt_changed_zero:
  assumes "wf_grid g" "goodFace f"
  shows "tilt g f = g \<or> (\<exists>n. inRange n \<and> cell (tilt g f) n = 0)"
proof -
  let ?P = "\<lambda>h. h = g \<or> (\<exists>n. inRange n \<and> cell h n = 0)"
  have "?P (tilt g f) \<and> wf_grid (tilt g f)"
  proof (rule tilt_rule[where P = ?P])
    fix h an bn
    assume *: "wf_grid h" "an \<in> set (concat f)" "bn \<in> set (concat f)" "an \<noteq> bn"
    then have "inRange an" "inRange bn"
      using goodFace_inRange[OF assms(2)] by blast+
    with * have "cell (mergeCells h an bn) an = 0"
      by (simp add: cell_mergeCells)
    with \<open>inRange an\<close> show "?P (mergeCells h an bn)" by blast
  next
    fix h an bn
    assume *: "wf_grid h" "an \<in> set (concat f)" "bn \<in> set (concat f)" "an \<noteq> bn"
      "cell h an = 0"
    then have "inRange an" "inRange bn"
      using goodFace_inRange[OF assms(2)] by blast+
    with * have "cell (swapCells h an bn) bn = 0"
      by (simp add: cell_swapCells)
    with \<open>inRange bn\<close> show "?P (swapCells h an bn)" by blast
  qed (use assms goodFace_distinct_lines[OF assms(2)] in auto)
  then show ?thesis ..
qed

lemma step_total:
  assumes "wf_grid (grid b)" "goodFace (faceOf b d)"
  shows "\<exists>b' c. step r d b = Inr (b', c)"
proof -
  let ?g = "tilt (grid b) (faceOf b d)"
  show ?thesis
  proof (cases "changed ?g (grid b)")
    case False
    then show ?thesis by (simp add: step_def)
  next
    case True
    then have "?g \<noteq> grid b"
      using assms by (simp add: changed_wf wf_tilt)
    with tilt_changed_zero[OF assms] obtain n where "inRange n" "cell ?g n = 0"
      by auto
    then have "options ?g \<noteq> []"
      using set_options_wf[OF wf_tilt[OF assms]] by auto
    with True show ?thesis
      by (simp add: step_def place_Inr Let_def)
  qed
qed

lemma faceOf_grid_update [simp]: "faceOf (b\<lparr>grid := g\<rparr>) d = faceOf b d"
  by (cases d) simp_all

lemma options_rowMajor:
  assumes "wf_grid g"
  shows "options g = filter (\<lambda>n. cell g n = 0) rowMajor"
proof -
  from wf_grid_rows[OF assms] obtain r0 r1 r2 r3 where
    g: "g = [r0, r1, r2, r3]" and l: "length r0 = 4" "length r1 = 4" "length r2 = 4" "length r3 = 4"
    by blast
  show ?thesis
    by (simp add: options_def rowMajor_def g l upt4 cell_def)
qed

lemma all_inRange: "(\<forall>n. inRange n \<longrightarrow> P n) \<longleftrightarrow> list_all P rowMajor"
  unfolding list_all_iff set_rowMajor by blast

lemma ex_inRange: "(\<exists>n. inRange n \<and> P n) \<longleftrightarrow> list_ex P rowMajor"
  unfolding list_ex_iff set_rowMajor by blast

lemma rowMajor_nodes:
  "rowMajor =
    [Node 0 0, Node 1 0, Node 2 0, Node 3 0, Node 0 1, Node 1 1, Node 2 1, Node 3 1,
     Node 0 2, Node 1 2, Node 2 2, Node 3 2, Node 0 3, Node 1 3, Node 2 3, Node 3 3]"
  by (simp add: rowMajor_def upt4)

section \<open>Running tilt on one line\<close>

text \<open>
  The loops unfold along a list of four distinct nodes; the simplifier then runs the
  merge pass and the shift pass on the values of the line.
\<close>

lemmas tilt_exec = tiltList_def mergeLoop_Cons mergeLoop_Nil cell_mergeCells wf_mergeCells
  shiftLoop_Cons shiftLoop_done cell_swapCells wf_swapCells

lemma tiltList_2240:
  assumes "wf_grid h" "distinct [n0, n1, n2, n3]" "inRange n0" "inRange n1" "inRange n2" "inRange n3"
    and "cell h n0 = 2" "cell h n1 = 2" "cell h n2 = 4" "cell h n3 = 0"
  shows "map (cell (tiltList h [n0, n1, n2, n3])) [n0, n1, n2, n3] = [8, 0, 0, 0]"
  using assms(1,3-) distinct4[OF assms(2)]
  by (simp add: tilt_exec)

lemma tiltList_four_equal:
  assumes "wf_grid h" "distinct [n0, n1, n2, n3]" "inRange n0" "inRange n1" "inRange n2" "inRange n3"
    and "cell h n0 = v" "cell h n1 = v" "cell h n2 = v" "cell h n3 = v"
    and "v \<noteq> 0" "v * 2 \<noteq> 0"
  shows "map (cell (tiltList h [n0, n1, n2, n3])) [n0, n1, n2, n3] = [v * 2, v * 2, 0, 0]"
  using assms(1,3-) distinct4[OF assms(2)]
  by (simp add: tilt_exec)

lemma tiltList_compacts:
  assumes "wf_grid g" "distinct l" "length l = 4" "\<forall>n\<in>set l. inRange n"
  shows "compacted (map (cell (tiltList g l)) l)"
proof -
  from assms(3) obtain n0 n1 n2 n3 where l: "l = [n0, n1, n2, n3]"
    using list4 by blast
  have wf: "wf_grid (mergeLoop g l l)"
    using mergeLoop_rule[where P = "\<lambda>_. True" and g = g and a = l and ?a0.0 = l and b = l] assms
    by simp
  show ?thesis
    unfolding tiltList_def using wf assms(2,4) unfolding l
    by (intro shift_compacts) simp_all
qed

lemma goodFace_concat:
  assumes "goodFace f"
  shows "distinct (concat f)" "\<forall>n\<in>set (concat f). inRange n"
  using assms goodFace_inRange[OF assms] by (auto simp: goodFace_def)

lemma row_cells:
  assumes "wf_grid g" "y < 4"
  shows "g ! y = map (cell g) [Node 0 y, Node 1 y, Node 2 y, Node 3 y]"
proof -
  from assms obtain a b c d where "g ! y = [a, b, c, d]"
    using list4[of "g ! y"] wf_grid_nth by blast
  then show ?thesis by (simp add: cell_def)
qed

lemma left_line:
  assumes "y < 4"
  shows "left createBoard ! y = [Node 0 y, Node 1 y, Node 2 y, Node 3 y]"
proof -
  from assms have "y = 0 \<or> y = 1 \<or> y = 2 \<or> y = 3" by auto
  then show ?thesis by (auto simp: left_createBoard)
qed

section \<open>Lines that are already settled\<close>

lemma compacted_Cons:
  "compacted (v # vs) \<longleftrightarrow> (if v = 0 then (\<forall>w\<in>set vs. w = 0) else compacted vs)"
  by (simp add: compacted_def list_all_iff)

lemma compacted_zeros: "\<forall>w\<in>set vs. w = 0 \<Longrightarrow> compacted vs"
  by (induction vs) (auto simp: compacted_Cons compacted_def)

lemma compacted_iff:
  "compacted vs \<longleftrightarrow> (\<forall>i j. i < j \<and> j < length vs \<and> vs ! i = 0 \<longrightarrow> vs ! j = 0)"
proof (induction vs)
  case Nil
  show ?case by (simp add: compacted_def)
next
  case (Cons v vs)
  show ?case
  proof (cases "v = 0")
    case True
    have "(\<forall>w\<in>set vs. w = 0) \<longleftrightarrow>
          (\<forall>i j. i < j \<and> j < length (v # vs) \<and> (v # vs) ! i = 0 \<longrightarrow> (v # vs) ! j = 0)"
    proof
      assume z: "\<forall>w\<in>set vs. w = 0"
      show "\<forall>i j. i < j \<and> j < length (v # vs) \<and> (v # vs) ! i = 0 \<longrightarrow> (v # vs) ! j = 0"
      proof (intro allI impI)
        fix i j assume "i < j \<and> j < length (v # vs) \<and> (v # vs) ! i = 0"
        then obtain j' where "j = Suc j'" "j' < length vs" by (cases j) auto
        with z show "(v # vs) ! j = 0" by simp
      qed
    next
      assume r: "\<forall>i j. i < j \<and> j < length (v # vs) \<and> (v # vs) ! i = 0 \<longrightarrow> (v # vs) ! j = 0"
      show "\<forall>w\<in>set vs. w = 0"
      proof
        fix w assume "w \<in> set vs"
        then obtain j where "j < length vs" "vs ! j = w" by (auto simp: in_set_conv_nth)
        with r[rule_format, of 0 "Suc j"] True show "w = 0" by simp
      qed
    qed
    with True show ?thesis by (simp add: compacted_Cons)
  next
    case False
    have "(\<forall>i j. i < j \<and> j < length vs \<and> vs ! i = 0 \<longrightarrow> vs ! j = 0) \<longleftrightarrow>
          (\<forall>i j. i < j \<and> j < length (v # vs) \<and> (v # vs) ! i = 0 \<longrightarrow> (v # vs) ! j = 0)"
    proof
      assume l: "\<forall>i j. i < j \<and> j < length vs \<and> vs ! i = 0 \<longrightarrow> vs ! j = 0"
      show "\<forall>i j. i < j \<and> j < length (v # vs) \<and> (v # vs) ! i = 0 \<longrightarrow> (v # vs) ! j = 0"
      proof (intro allI impI)
        fix i j assume a: "i < j \<and> j < length (v # vs) \<and> (v # vs) ! i = 0"
        with False obtain i' where i: "i = Suc i'" by (cases i) auto
        with a obtain j' where j: "j = Suc j'" by (cases j) auto
        from a i j l[rule_format, of i' j'] show "(v # vs) ! j = 0" by simp
      qed
    next
      assume r: "\<forall>i j. i < j \<and> j < length (v # vs) \<and> (v # vs) ! i = 0 \<longrightarrow> (v # vs) ! j = 0"
      show "\<forall>i j. i < j \<and> j < length vs \<and> vs ! i = 0 \<longrightarrow> vs ! j = 0"
      proof (intro allI impI)
        fix i j assume "i < j \<and> j < length vs \<and> vs ! i = 0"
        with r[rule_format, of "Suc i" "Suc j"] show "vs ! j = 0" by simp
      qed
    qed
    with False Cons.IH show ?thesis by (simp add: compacted_Cons)
  qed
qed

lemma noMerge_tl: "noMerge (v # vs) \<Longrightarrow> noMerge vs"
  by (cases vs) auto

lemma noMerge_iff:
  "noMerge vs \<longleftrightarrow> (\<forall>i. Suc i < length vs \<and> vs ! i \<noteq> 0 \<longrightarrow> vs ! i \<noteq> vs ! Suc i)"
proof (induction vs rule: noMerge.induct)
  case (1 v w vs)
  have "(\<forall>i. Suc i < length (v # w # vs) \<and> (v # w # vs) ! i \<noteq> 0 \<longrightarrow>
             (v # w # vs) ! i \<noteq> (v # w # vs) ! Suc i) \<longleftrightarrow>
        ((v = 0 \<or> v \<noteq> w) \<and>
         (\<forall>i. Suc i < length (w # vs) \<and> (w # vs) ! i \<noteq> 0 \<longrightarrow> (w # vs) ! i \<noteq> (w # vs) ! Suc i))"
    (is "?L \<longleftrightarrow> ?A \<and> ?R")
  proof
    assume L: ?L
    from L[rule_format, of 0] have ?A by auto
    moreover have ?R
    proof (intro allI impI)
      fix i assume "Suc i < length (w # vs) \<and> (w # vs) ! i \<noteq> 0"
      with L[rule_format, of "Suc i"] show "(w # vs) ! i \<noteq> (w # vs) ! Suc i" by simp
    qed
    ultimately show "?A \<and> ?R" ..
  next
    assume AR: "?A \<and> ?R"
    show ?L
    proof (intro allI impI)
      fix i assume a: "Suc i < length (v # w # vs) \<and> (v # w # vs) ! i \<noteq> 0"
      show "(v # w # vs) ! i \<noteq> (v # w # vs) ! Suc i"
      proof (cases i)
        case 0
        with a AR show ?thesis by auto
      next
        case (Suc i')
        with a AR[THEN conjunct2, rule_format, of i'] show ?thesis by simp
      qed
    qed
  qed
  with 1 show ?case by simp
qed simp_all

lemma mergeLoop_noop:
  "compacted (map (cell g) a) \<Longrightarrow> noMerge (map (cell g) a) \<Longrightarrow> b \<noteq> [] \<Longrightarrow>
   mergeLoop g a b = g"
proof (induction a arbitrary: b)
  case Nil
  then show ?case by (simp add: mergeLoop_Nil)
next
  case (Cons n ns)
  show ?case
  proof (cases "cell g n = 0")
    case True
    with Cons.prems have "\<forall>m\<in>set ns. cell g m = 0"
      by (simp add: compacted_Cons)
    then have "compacted (map (cell g) ns)"
      by (intro compacted_zeros) simp
    with Cons True noMerge_tl[of "cell g n" "map (cell g) ns"] show ?thesis
      by (simp add: mergeLoop_Cons)
  next
    case nz: False
    with Cons.prems have c: "compacted (map (cell g) ns)"
      by (simp add: compacted_Cons)
    from Cons.prems have nm: "noMerge (map (cell g) ns)"
      using noMerge_tl[of "cell g n" "map (cell g) ns"] by simp
    show ?thesis
    proof (cases ns)
      case Nil
      with nz Cons.prems show ?thesis by (simp add: mergeLoop_Cons)
    next
      case ns: (Cons m ms)
      show ?thesis
      proof (cases "cell g m = 0")
        case True
        with c ns have "\<forall>k\<in>set ns. cell g k = 0"
          by (simp add: compacted_Cons)
        then have "skipZeros g ns = []"
          by (simp add: skipZeros_Nil)
        with nz Cons.prems show ?thesis by (simp add: mergeLoop_Cons)
      next
        case False
        with ns have sk: "skipZeros g ns = m # ms" by simp
        from Cons.prems(2) nz ns have "cell g n \<noteq> cell g m" by simp
        with nz sk Cons.prems(3) Cons.IH[OF c nm, of "m # ms"] show ?thesis
          by (simp add: mergeLoop_Cons)
      qed
    qed
  qed
qed

lemma swapLoop_zeros: "\<forall>m\<in>set bs. cell g m = 0 \<Longrightarrow> swapLoop g an bs = g"
  by (induction bs) auto

lemma shiftLoop_noop: "compacted (map (cell g) a) \<Longrightarrow> shiftLoop i g a = g"
proof (induction a arbitrary: i)
  case Nil
  show ?case by (subst shiftLoop.simps) simp
next
  case (Cons n ns)
  show ?case
  proof (cases "i < 3")
    case False
    then show ?thesis by (simp add: shiftLoop_done)
  next
    case True
    show ?thesis
    proof (cases "cell g n = 0")
      case z: True
      with Cons.prems have zs: "\<forall>m\<in>set ns. cell g m = 0"
        by (simp add: compacted_Cons)
      then have "compacted (map (cell g) ns)"
        by (intro compacted_zeros) simp
      with True z zs Cons.IH[of "i + 1"] show ?thesis
        by (simp add: shiftLoop_Cons swapLoop_zeros)
    next
      case False
      with Cons.prems have "compacted (map (cell g) ns)"
        by (simp add: compacted_Cons)
      with True False Cons.IH[of "i + 1"] show ?thesis
        by (simp add: shiftLoop_Cons)
    qed
  qed
qed

lemma tilt_noop:
  "\<forall>l\<in>set f. compacted (map (cell g) l) \<and> noMerge (map (cell g) l) \<Longrightarrow> tilt g f = g"
proof (induction f)
  case Nil
  show ?case by simp
next
  case (Cons l f)
  then have l: "compacted (map (cell g) l)" "noMerge (map (cell g) l)"
    by simp_all
  have "mergeLoop g l l = g"
  proof (cases l)
    case Nil
    then show ?thesis by (simp add: mergeLoop_Nil)
  next
    case (Cons n ns)
    with l show ?thesis by (intro mergeLoop_noop) simp_all
  qed
  with l(1) have "tiltList g l = g"
    by (simp add: tiltList_def shiftLoop_noop)
  with Cons show ?case by simp
qed

section \<open>The trace of merges\<close>

lemma mergeLoop_replay:
  "mergeLoop g a b = foldl (\<lambda>h (an, bn). mergeCells h an bn) g (mergeTrace g a b)"
proof (induction g a b rule: mergeLoop.induct)
  case (1 g a b)
  show ?case
  proof (cases "a = [] \<or> b = []")
    case True
    then show ?thesis
      by (subst mergeLoop.simps, subst mergeTrace.simps) simp
  next
    case nonnil: False
    show ?thesis
    proof (cases "skipZeros g a")
      case Nil
      with nonnil show ?thesis
        by (subst mergeLoop.simps, subst mergeTrace.simps) simp
    next
      case a1: (Cons an anext)
      show ?thesis
      proof (cases "skipZeros g anext")
        case Nil
        with nonnil a1 show ?thesis
          by (subst mergeLoop.simps, subst mergeTrace.simps) simp
      next
        case b1: (Cons bn bnext)
        from "1.IH"[OF nonnil a1 b1] nonnil a1 b1 show ?thesis
          by (subst mergeLoop.simps, subst mergeTrace.simps) simp
      qed
    qed
  qed
qed

lemma set_skipZeros: "set (skipZeros g a) \<subseteq> set a"
  by (induction a) auto

lemma set_tl: "set (tl xs) \<subseteq> set xs"
  by (cases xs) auto

lemma skipZeros_append_zeros:
  "\<forall>n\<in>set pre. cell g n = 0 \<Longrightarrow> skipZeros g (pre @ xs) = skipZeros g xs"
  by (induction pre) auto

lemma mergeTrace_props:
  "wf_grid g \<Longrightarrow> distinct a \<Longrightarrow> \<forall>n\<in>set a. inRange n \<Longrightarrow>
   fst ` set (mergeTrace g a b) \<subseteq> set (skipZeros g a) \<and>
   snd ` set (mergeTrace g a b) \<subseteq> set (tl (skipZeros g a)) \<and>
   mergesOK (mergeTrace g a b)"
proof (induction g a b rule: mergeTrace.induct)
  case (1 g a b)
  show ?case
  proof (cases "a = [] \<or> b = []")
    case True
    then have "mergeTrace g a b = []"
      by (subst mergeTrace.simps) simp
    then show ?thesis by simp
  next
    case nonnil: False
    show ?thesis
    proof (cases "skipZeros g a")
      case Nil
      with nonnil have "mergeTrace g a b = []"
        by (subst mergeTrace.simps) simp
      then show ?thesis by simp
    next
      case a1: (Cons an anext)
      from skipZeros_Cons[OF a1] obtain pre where
        an0: "cell g an \<noteq> 0" and a: "a = pre @ an # anext"
        by blast
      show ?thesis
      proof (cases "skipZeros g anext")
        case Nil
        with nonnil a1 have "mergeTrace g a b = []"
          by (subst mergeTrace.simps) simp
        then show ?thesis by simp
      next
        case b1: (Cons bn bnext)
        from skipZeros_Cons[OF b1] obtain pre' where
          bn0: "cell g bn \<noteq> 0" and anext: "anext = pre' @ bn # bnext"
          and pre': "\<forall>n\<in>set pre'. cell g n = 0"
          by blast
        define g' where "g' = (if cell g an = cell g bn then mergeCells g an bn else g)"
        define E' where "E' = mergeTrace g' anext (bn # bnext)"
        have unfold: "mergeTrace g a b =
            (if cell g an = cell g bn then [(an, bn)] else []) @ E'"
          unfolding E'_def g'_def using nonnil a1 b1 by (subst mergeTrace.simps) simp
        have wf': "wf_grid g'"
          using "1.prems"(1) by (simp add: g'_def wf_mergeCells)
        have d': "distinct anext" and r': "\<forall>n\<in>set anext. inRange n"
          using "1.prems"(2,3) a by auto
        have an_notin: "an \<notin> set anext" and bn_notin: "bn \<notin> set bnext"
          and bn_in: "bn \<in> set anext" and neq: "an \<noteq> bn"
          using "1.prems"(2) a anext by auto
        have ran: "inRange an" "inRange bn"
          using "1.prems"(3) a anext by auto
        have pre0: "\<forall>n\<in>set pre'. cell g' n = 0"
        proof
          fix n assume n: "n \<in> set pre'"
          then have "n \<noteq> an" "n \<noteq> bn" "inRange n"
            using "1.prems"(2,3) a anext by auto
          with n pre' ran neq "1.prems"(1) show "cell g' n = 0"
            by (simp add: g'_def cell_mergeCells)
        qed
        have "skipZeros g' anext = skipZeros g' (bn # bnext)"
          unfolding anext using pre0 by (rule skipZeros_append_zeros)
        then have tl_sub: "set (tl (skipZeros g' anext)) \<subseteq> set bnext"
          using set_skipZeros[of g' bnext] set_tl[of "skipZeros g' bnext"]
          by (cases "cell g' bn = 0") auto
        from "1.IH"[OF nonnil a1 b1 wf'[unfolded g'_def] d' r'] have
          IH: "fst ` set E' \<subseteq> set (skipZeros g' anext)"
              "snd ` set E' \<subseteq> set (tl (skipZeros g' anext))"
              "mergesOK E'"
          unfolding E'_def g'_def by simp_all
        have fst_sub: "fst ` set E' \<subseteq> set anext"
          using IH(1) set_skipZeros[of g' anext] by blast
        have snd_sub: "snd ` set E' \<subseteq> set bnext"
          using IH(2) tl_sub by blast
        have "set bnext \<subseteq> set anext"
          unfolding anext by auto
        with snd_sub have snd_sub': "snd ` set E' \<subseteq> set anext"
          by (rule subset_trans)
        have fstE: "p \<in> set anext" if "(p, q) \<in> set E'" for p q
          using that fst_sub by force
        have sndE: "q \<in> set bnext" if "(p, q) \<in> set E'" for p q
          using that snd_sub by force
        have sndE': "q \<in> set anext" if "(p, q) \<in> set E'" for p q
          using that snd_sub' by force
        have 1: "fst ` set (mergeTrace g a b) \<subseteq> set (skipZeros g a)"
          unfolding unfold a1 by (auto dest: fstE)
        have 2: "snd ` set (mergeTrace g a b) \<subseteq> set (tl (skipZeros g a))"
          unfolding unfold a1 using bn_in by (auto dest: sndE')
        have 3: "mergesOK (mergeTrace g a b)"
          unfolding unfold using IH(3) an_notin bn_notin
          by (auto dest: fstE sndE sndE')
        from 1 2 3 show ?thesis by simp
      qed
    qed
  qed
qed

lemma mergesOK_append:
  "mergesOK es \<Longrightarrow> mergesOK es' \<Longrightarrow>
   (fst ` set es \<union> snd ` set es) \<inter> (fst ` set es' \<union> snd ` set es') = {} \<Longrightarrow>
   mergesOK (es @ es')"
proof (induction es)
  case Nil
  then show ?case by simp
next
  case (Cons e es)
  obtain an bn where e: "e = (an, bn)" by (cases e)
  from Cons.prems e have "mergesOK (es @ es')"
    by (intro Cons.IH) auto
  with Cons.prems e show ?case
    by (auto simp: image_Un)
qed

lemma tiltTrace_props:
  "wf_grid g \<Longrightarrow> distinct (concat f) \<Longrightarrow> \<forall>n\<in>set (concat f). inRange n \<Longrightarrow>
   fst ` set (tiltTrace g f) \<union> snd ` set (tiltTrace g f) \<subseteq> set (concat f) \<and>
   mergesOK (tiltTrace g f)"
proof (induction f arbitrary: g)
  case Nil
  then show ?case by simp
next
  case (Cons l f)
  have dl: "distinct l" and rl: "\<forall>n\<in>set l. inRange n"
    using Cons.prems by auto
  from mergeTrace_props[OF Cons.prems(1) dl rl, of l] have
    m: "fst ` set (mergeTrace g l l) \<subseteq> set l" "snd ` set (mergeTrace g l l) \<subseteq> set l"
       "mergesOK (mergeTrace g l l)"
    using set_skipZeros[of g l] set_tl[of "skipZeros g l"] by blast+
  have "wf_grid (tiltList g l)"
    using Cons.prems(1) dl by (rule wf_tiltList)
  from Cons.IH[OF this] Cons.prems have
    t: "fst ` set (tiltTrace (tiltList g l) f) \<union> snd ` set (tiltTrace (tiltList g l) f)
          \<subseteq> set (concat f)"
       "mergesOK (tiltTrace (tiltList g l) f)"
    by auto
  have disj: "set l \<inter> set (concat f) = {}"
    using Cons.prems(2) by auto
  have "mergesOK (mergeTrace g l l @ tiltTrace (tiltList g l) f)"
    using m t disj by (intro mergesOK_append) blast+
  with m t show ?case
    by (auto simp: image_Un)
qed

lemma mergesOK_distinct:
  "mergesOK es \<Longrightarrow> distinct (map fst es) \<and> distinct (map snd es)"
  by (induction es rule: mergesOK.induct) auto

lemma mergesOK_later:
  "mergesOK es \<Longrightarrow> i < j \<Longrightarrow> j < length es \<Longrightarrow>
   fst (es ! i) \<noteq> fst (es ! j) \<and> fst (es ! i) \<noteq> snd (es ! j)"
proof (induction es arbitrary: i j rule: mergesOK.induct)
  case 1
  then show ?case by simp
next
  case (2 an bn es)
  from "2.prems" obtain j' where j: "j = Suc j'" "j' < length es"
    by (cases j) auto
  show ?case
  proof (cases i)
    case 0
    from j have "es ! j' \<in> set es" by simp
    then have "fst (es ! j') \<in> fst ` set es" "snd (es ! j') \<in> snd ` set es"
      by blast+
    with "2.prems"(1) 0 j show ?thesis by auto
  next
    case (Suc i')
    with "2.prems" j "2.IH"[of i' j'] show ?thesis by simp
  qed
qed

section \<open>The invariant of the grid\<close>

lemma pow2_inj:
  assumes "k < 64" "k' < 64" "(2::val) ^ k = 2 ^ k'"
  shows "k = k'"
proof -
  have "bit ((2::val) ^ k) k"
    using assms(1) by (simp add: bit_exp_iff)
  then have "bit ((2::val) ^ k') k"
    using assms(3) by simp
  then show ?thesis
    by (simp add: bit_exp_iff)
qed

lemma pow2_nonzero: "k < 64 \<Longrightarrow> (2::val) ^ k \<noteq> 0"
  by simp

lemma level_zero [simp]: "\<not> level 0 j"
  by (auto simp: level_def)

lemma level_pow2 [simp]: "k < 64 \<Longrightarrow> level (2 ^ k) j \<longleftrightarrow> j \<le> k"
  using pow2_inj by (auto simp: level_def)

lemma level_mono:
  assumes "level v j" "i \<le> j"
  shows "level v i"
proof -
  from assms(1) obtain k where "j \<le> k" "k < 64" "v = 2 ^ k"
    by (auto simp: level_def)
  with assms(2) have "i \<le> k \<and> k < 64 \<and> v = 2 ^ k"
    by simp
  then show ?thesis
    unfolding level_def by (rule exI)
qed

lemma finite_atLevel [simp]: "finite (atLevel g j)"
  by (rule finite_subset[OF _ finite_inRange]) (auto simp: atLevel_def)

lemma card_atLevel_le: "card (atLevel g j) \<le> 16"
  using card_mono[OF finite_inRange, of "atLevel g j"] by (auto simp: atLevel_def card_inRange)

lemma tiles_bound:
  assumes "tiles g" "inRange n"
  shows "cell g n = 0 \<or> (\<exists>k. 1 \<le> k \<and> k \<le> 16 \<and> cell g n = 2 ^ k)"
proof (cases "cell g n = 0")
  case True
  then show ?thesis by simp
next
  case False
  with assms obtain k where k: "1 \<le> k" "k < 64" "cell g n = 2 ^ k"
    by (auto simp: tiles_def level_def)
  with assms(2) have "n \<in> atLevel g k"
    by (simp add: atLevel_def)
  then have "atLevel g k \<noteq> {}" "1 \<le> card (atLevel g k)"
    using card_gt_0_iff[of "atLevel g k"] by auto
  moreover from assms(1) have
    "\<forall>j. 1 \<le> j \<and> atLevel g j \<noteq> {} \<longrightarrow> card (atLevel g j) + j \<le> 17"
    by (simp add: tiles_def)
  ultimately have "card (atLevel g k) + k \<le> 17" "1 \<le> card (atLevel g k)"
    using k(1) by blast+
  then have "k \<le> 16"
    by simp
  with k show ?thesis by blast
qed

lemma tiles_mergeCells:
  assumes "tiles g" "inRange an" "inRange bn" "an \<noteq> bn" "cell g an \<noteq> 0"
    "cell g bn = cell g an"
  shows "tiles (mergeCells g an bn)"
proof -
  let ?g' = "mergeCells g an bn"
  have wf: "wf_grid g" using assms(1) by (simp add: tiles_def)
  from assms obtain k where k: "1 \<le> k" "k < 64" "cell g an = 2 ^ k"
    by (auto simp: tiles_def level_def)
  have in_k: "an \<in> atLevel g k" "bn \<in> atLevel g k"
    using assms k by (simp_all add: atLevel_def)
  then have ne: "atLevel g k \<noteq> {}" by auto
  have "card {an, bn} \<le> card (atLevel g k)"
    using in_k by (intro card_mono) auto
  then have two: "2 \<le> card (atLevel g k)"
    using assms(4) by simp
  have bound: "card (atLevel g k) + k \<le> 17"
    using assms(1) k(1) ne by (simp add: tiles_def)
  with two have k15: "k \<le> 15" by simp
  define v' where "v' = (2::val) ^ (k + 1)"
  have lv': "level v' j \<longleftrightarrow> j \<le> k + 1" for j
    unfolding v'_def using k15 by (intro level_pow2) simp
  have lv: "level (cell g an) j \<longleftrightarrow> j \<le> k" for j
    unfolding k(3) using k(2) by (rule level_pow2)
  have cell': "cell ?g' n = (if n = bn then v' else if n = an then 0 else cell g n)"
    if "inRange n" for n
    using that wf assms(2-4,6) k by (simp add: cell_mergeCells v'_def)
  have 1: "cell ?g' n = 0 \<or> level (cell ?g' n) 1" if "inRange n" for n
    using that assms(1) by (auto simp: cell' tiles_def lv')
  have 2: "card (atLevel ?g' j) + j \<le> 17" if j: "1 \<le> j" "atLevel ?g' j \<noteq> {}" for j
  proof -
    consider "j \<le> k" | "j = k + 1" | "k + 1 < j" by linarith
    then show ?thesis
    proof cases
      case 1
      have sub: "atLevel ?g' j \<subseteq> atLevel g j"
        using 1 assms(3,6) by (auto simp: atLevel_def cell' lv split: if_splits)
      then have "atLevel g j \<noteq> {}" using j(2) by auto
      then have "card (atLevel g j) + j \<le> 17"
        using assms(1) j(1) by (simp add: tiles_def)
      moreover have "card (atLevel ?g' j) \<le> card (atLevel g j)"
        using sub by (intro card_mono) auto
      ultimately show ?thesis by simp
    next
      case 2
      have notin: "an \<notin> atLevel g (k + 1)" "bn \<notin> atLevel g (k + 1)"
        using assms(6) by (simp_all add: atLevel_def lv)
      have "atLevel g (k + 1) \<subseteq> atLevel g k - {an, bn}"
        using notin level_mono[of _ "k + 1" k] by (auto simp: atLevel_def)
      then have "card (atLevel g (k + 1)) \<le> card (atLevel g k - {an, bn})"
        by (intro card_mono) auto
      also have "\<dots> = card (atLevel g k) - 2"
        using in_k assms(4) by (simp add: card_Diff_subset)
      finally have a: "card (atLevel g (k + 1)) + 2 \<le> card (atLevel g k)"
        using two by simp
      have "atLevel ?g' j \<subseteq> insert bn (atLevel g (k + 1))"
        unfolding 2 by (auto simp: atLevel_def cell' split: if_splits)
      then have "card (atLevel ?g' j) \<le> card (insert bn (atLevel g (k + 1)))"
        by (intro card_mono) auto
      also have "\<dots> \<le> card (atLevel g (k + 1)) + 1"
        by (simp add: card_insert_if)
      finally show ?thesis
        using a bound 2 by simp
    next
      case 3
      have "atLevel ?g' j = atLevel g j"
        using 3 assms(6) by (auto simp: atLevel_def cell' lv lv' split: if_splits)
      with j assms(1) show ?thesis by (simp add: tiles_def)
    qed
  qed
  from 1 2 wf show ?thesis
    by (simp add: tiles_def wf_mergeCells)
qed

lemma tiles_swapCells:
  assumes "tiles g" "inRange an" "inRange bn" "an \<noteq> bn" "cell g an = 0"
  shows "tiles (swapCells g an bn)"
proof -
  let ?g' = "swapCells g an bn"
  have wf: "wf_grid g" using assms(1) by (simp add: tiles_def)
  have cell': "cell ?g' n = (if n = bn then 0 else if n = an then cell g bn else cell g n)"
    if "inRange n" for n
    using that wf assms(2-5) by (simp add: cell_swapCells)
  have 1: "cell ?g' n = 0 \<or> level (cell ?g' n) 1" if "inRange n" for n
    using that assms(1,3) by (auto simp: cell' tiles_def)
  have an_out: "an \<notin> atLevel g j" for j
    using assms(5) by (simp add: atLevel_def)
  have 2: "card (atLevel ?g' j) + j \<le> 17" if j: "1 \<le> j" "atLevel ?g' j \<noteq> {}" for j
  proof (cases "bn \<in> atLevel g j")
    case True
    then have "atLevel ?g' j = insert an (atLevel g j - {bn})"
      using assms(2,3,4) by (auto simp: atLevel_def cell' split: if_splits)
    moreover have "0 < card (atLevel g j)"
      using True by (auto simp: card_gt_0_iff)
    ultimately have "card (atLevel ?g' j) = card (atLevel g j)"
      using True an_out[of j] by (simp add: card_insert_if card_Diff_singleton_if)
    moreover have "card (atLevel g j) + j \<le> 17"
      using True assms(1) j(1) by (auto simp: tiles_def)
    ultimately show ?thesis by simp
  next
    case False
    then have "atLevel ?g' j = atLevel g j"
      using assms(2,3,5) by (auto simp: atLevel_def cell' split: if_splits)
    with j assms(1) show ?thesis by (simp add: tiles_def)
  qed
  from 1 2 wf show ?thesis
    by (simp add: tiles_def wf_swapCells)
qed

lemma tiles_tilt:
  assumes "tiles g" "goodFace f"
  shows "tiles (tilt g f)"
proof -
  have wf: "wf_grid g" using assms(1) by (simp add: tiles_def)
  have "tiles (tilt g f) \<and> wf_grid (tilt g f)"
  proof (rule tilt_rule[where P = tiles])
    fix h an bn
    assume "tiles h" "an \<in> set (concat f)" "bn \<in> set (concat f)" "an \<noteq> bn"
      "cell h an \<noteq> 0" "cell h bn = cell h an"
    then show "tiles (mergeCells h an bn)"
      using goodFace_inRange[OF assms(2)] by (intro tiles_mergeCells) auto
  next
    fix h an bn
    assume "tiles h" "an \<in> set (concat f)" "bn \<in> set (concat f)" "an \<noteq> bn"
      "cell h an = 0"
    then show "tiles (swapCells h an bn)"
      using goodFace_inRange[OF assms(2)] by (intro tiles_swapCells) auto
  qed (use assms wf goodFace_distinct_lines[OF assms(2)] in auto)
  then show ?thesis ..
qed

lemma tiles_place:
  assumes "tiles g" "place r g = Inr g'"
  shows "tiles g'"
proof -
  have wf: "wf_grid g" using assms(1) by (simp add: tiles_def)
  from assms(2) have ne: "options g \<noteq> []"
    by (auto simp: place_def Intn_def split: if_splits)
  define n where "n = options g ! (r mod length (options g))"
  have g': "g' = setCell g n 2"
    using assms(2) ne by (simp add: place_Inr n_def)
  have "n \<in> set (options g)"
    unfolding n_def using ne by simp
  then have n: "inRange n" "cell g n = 0"
    using set_options_wf[OF wf] by auto
  have l2: "level 2 j \<longleftrightarrow> j \<le> 1" for j
    using level_pow2[of 1 j] by simp
  have cell': "cell g' m = (if m = n then 2 else cell g m)" if "inRange m" for m
    using that wf n(1) by (simp add: g' cell_setCell)
  have 1: "cell g' m = 0 \<or> level (cell g' m) 1" if "inRange m" for m
    using that assms(1) by (auto simp: cell' tiles_def l2)
  have 2: "card (atLevel g' j) + j \<le> 17" if j: "1 \<le> j" "atLevel g' j \<noteq> {}" for j
  proof (cases "j = 1")
    case True
    have "card (atLevel g' j) \<le> 16" by (rule card_atLevel_le)
    with True show ?thesis by simp
  next
    case False
    with j(1) have "\<not> j \<le> 1" by simp
    then have "atLevel g' j = atLevel g j"
      using n by (auto simp: atLevel_def cell' l2 split: if_splits)
    with j assms(1) show ?thesis by (simp add: tiles_def)
  qed
  from 1 2 wf show ?thesis
    by (simp add: tiles_def g' wf_setCell)
qed

lemma cell_createBoard: "inRange n \<Longrightarrow> cell (grid createBoard) n = 0"
  by (cases n) (auto simp: cell_def createBoard_def inRange_def)

lemma wf_createBoard: "wf_grid (grid createBoard)"
  by (simp add: wf_grid_def createBoard_def list_all_iff)

lemma tiles_createBoard: "tiles (grid createBoard)"
  by (simp add: tiles_def wf_createBoard cell_createBoard atLevel_def)

lemma boardOK_step:
  assumes "boardOK b" "step r d b = Inr (b', c)"
  shows "boardOK b'"
proof -
  have gf: "goodFace (faceOf b d)"
    using assms(1) goodFace_createBoard by (simp add: boardOK_def)
  have t: "tiles (tilt (grid b) (faceOf b d))"
    using assms(1) gf by (intro tiles_tilt) (simp_all add: boardOK_def)
  show ?thesis
  proof (cases "changed (tilt (grid b) (faceOf b d)) (grid b)")
    case True
    with assms(2) obtain g' where g': "place r (tilt (grid b) (faceOf b d)) = Inr g'"
      and b': "b' = b\<lparr>grid := g'\<rparr>"
      by (auto simp: step_def Let_def split: sum.splits)
    from tiles_place[OF t g'] assms(1) show ?thesis
      by (simp add: boardOK_def b')
  next
    case False
    with assms(2) have "b' = b\<lparr>grid := tilt (grid b) (faceOf b d)\<rparr>"
      by (simp add: step_def Let_def)
    with t assms(1) show ?thesis
      by (simp add: boardOK_def)
  qed
qed

lemma boardOK_createModel:
  assumes "createModel r1 r2 = Inr b"
  shows "boardOK b"
proof -
  from assms obtain g1 g2 where
    p: "place r1 (grid createBoard) = Inr g1" "place r2 g1 = Inr g2"
    and b: "b = createBoard\<lparr>grid := g2\<rparr>"
    by (auto simp: createModel_def split: sum.splits)
  have "tiles g1"
    using tiles_createBoard p(1) by (rule tiles_place)
  then have "tiles g2"
    using p(2) by (rule tiles_place)
  then show ?thesis
    by (simp add: boardOK_def b)
qed

lemma reachable_boardOK: "reachable b \<Longrightarrow> boardOK b"
proof (induction rule: reachable.induct)
  case (start r1 r2 b)
  then show ?case by (rule boardOK_createModel)
next
  case (update b r m b' c)
  from Update_cases[of r m b] consider "b' = b" | d where "step r d b = Inr (b', c)"
    using update.hyps(2) by auto
  then show ?case
  proof cases
    case 1
    with update.IH show ?thesis by simp
  next
    case 2
    with update.IH show ?thesis by (rule boardOK_step)
  qed
qed

section \<open>The claims\<close>

subsection \<open>Merges of one tilt\<close>

text \<open>
  C1, as stated: within one call of \<^verbatim>\<open>tilt\<close> each cell takes part in at most one merge,
  so that a value produced by a merge is never merged again in the same call. This fails
  on the row 2 2 4 0 tilted to the left: the first merge zeroes cell 0 and doubles cell 1
  to 4, and the second merge zeroes cell 1 and doubles cell 2 to 8. Cell 1 takes part in
  both merges.
\<close>

theorem merged_value_merges_again:
  "tiltTrace [[2, 2, 4, 0], [0, 0, 0, 0], [0, 0, 0, 0], [0, 0, 0, 0]] (faceOf createBoard DirLeft) =
     [(Node 0 0, Node 1 0), (Node 1 0, Node 2 0)] \<and>
   \<not> distinct (participants
         (tiltTrace [[2, 2, 4, 0], [0, 0, 0, 0], [0, 0, 0, 0], [0, 0, 0, 0]]
            (faceOf createBoard DirLeft)))"
  by code_simp

text \<open>
  C1, amended. For every 4x4 grid and every direction, among the merges of one call of
  \<^verbatim>\<open>tilt\<close> no cell is zeroed twice and no cell is doubled twice, and a cell that a
  merge has zeroed takes part in no later merge, neither as the zeroed nor as the doubled
  cell. (A doubled cell can still be the zeroed cell of a later merge.)
\<close>

theorem merges_within_one_tilt:
  assumes "wf_grid g"
  shows "distinct (map fst (tiltTrace g (faceOf createBoard d))) \<and>
         distinct (map snd (tiltTrace g (faceOf createBoard d))) \<and>
         (\<forall>i j. i < j \<and> j < length (tiltTrace g (faceOf createBoard d)) \<longrightarrow>
            fst (tiltTrace g (faceOf createBoard d) ! i) \<noteq>
              fst (tiltTrace g (faceOf createBoard d) ! j) \<and>
            fst (tiltTrace g (faceOf createBoard d) ! i) \<noteq>
              snd (tiltTrace g (faceOf createBoard d) ! j))"
proof -
  have gf: "goodFace (faceOf createBoard d)" by (rule goodFace_createBoard)
  from tiltTrace_props[OF assms goodFace_concat[OF gf]]
  have ok: "mergesOK (tiltTrace g (faceOf createBoard d))" ..
  from mergesOK_distinct[OF ok] mergesOK_later[OF ok] show ?thesis
    by blast
qed

theorem merges_within_one_tilt_witness:
  "wf_grid [[2, 2, 4, 0], [0, 0, 0, 0], [0, 0, 0, 0], [0, 0, 0, 0]] \<and>
   distinct (map fst (tiltTrace [[2, 2, 4, 0], [0, 0, 0, 0], [0, 0, 0, 0], [0, 0, 0, 0]]
                        (faceOf createBoard DirLeft))) \<and>
   distinct (map snd (tiltTrace [[2, 2, 4, 0], [0, 0, 0, 0], [0, 0, 0, 0], [0, 0, 0, 0]]
                        (faceOf createBoard DirLeft)))"
proof -
  let ?g = "[[2, 2, 4, 0], [0, 0, 0, 0], [0, 0, 0, 0], [0, 0, 0, 0]] :: grid"
  have wf: "wf_grid ?g"
    by (simp add: wf_grid_def)
  from merges_within_one_tilt[OF wf, of DirLeft] wf
  show ?thesis by blast
qed

text \<open>
  C2, as stated: a line of four equal tiles merges only its first pair and ends with three
  non-zero cells. This fails on the row 2 2 2 2 tilted to the left: both pairs merge and
  the row ends as 4 4 0 0, with two non-zero cells.
\<close>

theorem four_twos_leave_two_tiles:
  "map (cell (tilt [[2, 2, 2, 2], [0, 0, 0, 0], [0, 0, 0, 0], [0, 0, 0, 0]]
                (faceOf createBoard DirLeft)))
     (faceOf createBoard DirLeft ! 0) = [4, 4, 0, 0] \<and>
   length (filter (\<lambda>v. v \<noteq> 0)
     (map (cell (tilt [[2, 2, 2, 2], [0, 0, 0, 0], [0, 0, 0, 0], [0, 0, 0, 0]]
                   (faceOf createBoard DirLeft)))
        (faceOf createBoard DirLeft ! 0))) \<noteq> 3 \<and>
   tiltTrace [[2, 2, 2, 2], [0, 0, 0, 0], [0, 0, 0, 0], [0, 0, 0, 0]] (faceOf createBoard DirLeft) =
     [(Node 0 0, Node 1 0), (Node 2 0, Node 3 0)]"
  by code_simp

text \<open>
  C2, amended. For every 4x4 grid, every direction and every line of that direction whose
  four cells hold the same power of two \<open>2 ^ k\<close>, with \<open>1 \<le> k \<le> 62\<close>, \<^verbatim>\<open>tilt\<close> merges
  the first pair and the second pair: the line ends as \<open>2 ^ (k + 1)\<close>, \<open>2 ^ (k + 1)\<close>,
  0, 0, with exactly two non-zero cells.
\<close>

theorem four_equal_tiles_merge_in_pairs:
  assumes "wf_grid g" "l \<in> set (faceOf createBoard d)" "1 \<le> k" "k \<le> 62"
    and "\<forall>n\<in>set l. cell g n = 2 ^ k"
  shows "map (cell (tilt g (faceOf createBoard d))) l = [2 ^ (k + 1), 2 ^ (k + 1), 0, 0] \<and>
         length (filter (\<lambda>v. v \<noteq> 0) (map (cell (tilt g (faceOf createBoard d))) l)) = 2"
proof -
  let ?f = "faceOf createBoard d"
  have gf: "goodFace ?f" by (rule goodFace_createBoard)
  from goodFace_line(2)[OF gf assms(2)] obtain n0 n1 n2 n3 where l: "l = [n0, n1, n2, n3]"
    using list4 by blast
  from tilt_line[OF assms(1) goodFace_concat[OF gf] assms(2)] obtain h where
    h: "wf_grid h" "map (cell h) l = map (cell g) l"
       "map (cell (tilt g ?f)) l = map (cell (tiltList h l)) l"
    by blast
  define v where "v = (2::val) ^ k"
  have v: "v \<noteq> 0" "v * 2 \<noteq> 0"
  proof -
    show "v \<noteq> 0" unfolding v_def using assms(4) by simp
    have "v * 2 = 2 ^ (k + 1)" by (simp add: v_def)
    also have "\<dots> \<noteq> 0" using assms(4) by (intro pow2_nonzero) simp
    finally show "v * 2 \<noteq> 0" .
  qed
  from h(2) assms(5) have c: "cell h n0 = v" "cell h n1 = v" "cell h n2 = v" "cell h n3 = v"
    by (simp_all add: l v_def)
  have "map (cell (tiltList h l)) l = [v * 2, v * 2, 0, 0]"
    unfolding l using h(1) goodFace_line[OF gf assms(2)] c v
    by (intro tiltList_four_equal) (simp_all add: l)
  with h(3) have r: "map (cell (tilt g ?f)) l = [v * 2, v * 2, 0, 0]"
    by simp
  have "v * 2 = 2 ^ (k + 1)" by (simp add: v_def)
  with r v(2) show ?thesis by simp
qed

theorem four_equal_tiles_merge_in_pairs_witness:
  "wf_grid [[0, 8, 0, 0], [0, 8, 0, 2], [0, 8, 0, 0], [4, 8, 0, 0]] \<and>
   [Node 1 3, Node 1 2, Node 1 1, Node 1 0] \<in> set (faceOf createBoard DirDown) \<and>
   list_all (\<lambda>n. cell [[0, 8, 0, 0], [0, 8, 0, 2], [0, 8, 0, 0], [4, 8, 0, 0]] n = 2 ^ 3)
     [Node 1 3, Node 1 2, Node 1 1, Node 1 0] \<and>
   map (cell (tilt [[0, 8, 0, 0], [0, 8, 0, 2], [0, 8, 0, 0], [4, 8, 0, 0]]
                (faceOf createBoard DirDown)))
     [Node 1 3, Node 1 2, Node 1 1, Node 1 0] = [2 ^ (3 + 1), 2 ^ (3 + 1), 0, 0]"
proof -
  let ?g = "[[0, 8, 0, 0], [0, 8, 0, 2], [0, 8, 0, 0], [4, 8, 0, 0]] :: grid"
  let ?l = "[Node 1 3, Node 1 2, Node 1 1, Node 1 0]"
  have wf: "wf_grid ?g"
    by (simp add: wf_grid_def)
  have l: "?l \<in> set (faceOf createBoard DirDown)"
    by (simp add: bottom_createBoard)
  have c: "list_all (\<lambda>n. cell ?g n = 2 ^ 3) ?l"
    by (simp add: cell_def)
  then have c': "\<forall>n\<in>set ?l. cell ?g n = 2 ^ 3"
    unfolding list_all_iff .
  have k: "(1::nat) \<le> 3" "(3::nat) \<le> 62"
    by simp_all
  from four_equal_tiles_merge_in_pairs[OF wf l k c'] wf l c
  show ?thesis by blast
qed

text \<open>
  C3, as stated: the row 2 2 4 0 tilted to the left becomes 4 4 0 0. It becomes 8 0 0 0:
  the 4 made of the two 2's lands on the second cell and is merged with the 4 of the
  third cell in the same pass.
\<close>

theorem row_2_2_4_0_is_not_4_4_0_0:
  "tilt [[2, 2, 4, 0], [0, 0, 0, 0], [0, 0, 0, 0], [0, 0, 0, 0]] (faceOf createBoard DirLeft) ! 0 =
     [8, 0, 0, 0] \<and>
   tilt [[2, 2, 4, 0], [0, 0, 0, 0], [0, 0, 0, 0], [0, 0, 0, 0]] (faceOf createBoard DirLeft) ! 0 \<noteq>
     [4, 4, 0, 0]"
  by code_simp

text \<open>
  C3, amended. In every 4x4 grid, a row holding 2 2 4 0 becomes the row 8 0 0 0 when the
  grid is tilted to the left.
\<close>

theorem left_on_2_2_4_0:
  assumes "wf_grid g" "y < 4" "g ! y = [2, 2, 4, 0]"
  shows "tilt g (faceOf createBoard DirLeft) ! y = [8, 0, 0, 0]"
proof -
  let ?f = "faceOf createBoard DirLeft"
  let ?l = "[Node 0 y, Node 1 y, Node 2 y, Node 3 y]"
  have gf: "goodFace ?f" by (rule goodFace_createBoard)
  have l: "?l \<in> set ?f"
    using assms(2) left_line[OF assms(2)] nth_mem[of y "left createBoard"]
    by (simp add: left_createBoard)
  from tilt_line[OF assms(1) goodFace_concat[OF gf] l] obtain h where
    h: "wf_grid h" "map (cell h) ?l = map (cell g) ?l"
       "map (cell (tilt g ?f)) ?l = map (cell (tiltList h ?l)) ?l"
    by blast
  from h(2) assms(3) row_cells[OF assms(1,2)] have
    c: "cell h (Node 0 y) = 2" "cell h (Node 1 y) = 2" "cell h (Node 2 y) = 4" "cell h (Node 3 y) = 0"
    by simp_all
  have "map (cell (tiltList h ?l)) ?l = [8, 0, 0, 0]"
    using h(1) goodFace_line[OF gf l] c by (intro tiltList_2240) simp_all
  with h(3) row_cells[OF wf_tilt[OF assms(1) gf] assms(2)] show ?thesis
    by simp
qed

theorem left_on_2_2_4_0_witness:
  "wf_grid [[0, 4, 0, 2], [2, 2, 4, 0], [0, 0, 0, 0], [2, 2, 2, 2]] \<and>
   (1::nat) < 4 \<and>
   ([[0, 4, 0, 2], [2, 2, 4, 0], [0, 0, 0, 0], [2, 2, 2, 2]] :: grid) ! 1 = [2, 2, 4, 0] \<and>
   tilt [[0, 4, 0, 2], [2, 2, 4, 0], [0, 0, 0, 0], [2, 2, 2, 2]] (faceOf createBoard DirLeft) ! 1 =
     [8, 0, 0, 0]"
proof -
  let ?g = "[[0, 4, 0, 2], [2, 2, 4, 0], [0, 0, 0, 0], [2, 2, 2, 2]] :: grid"
  have wf: "wf_grid ?g"
    by (simp add: wf_grid_def)
  have y: "(1::nat) < 4"
    by simp
  have row: "?g ! 1 = [2, 2, 4, 0]"
    by simp
  from left_on_2_2_4_0[OF wf y row] wf y row
  show ?thesis by blast
qed

subsection \<open>The sum of the cells\<close>

text \<open>
  C4, as stated: the sum of the cells after the merge pass is the sum before it plus the
  number of merges times the value of the merged pair. This fails on the row 2 2 0 0
  tilted to the left: there is one merge, of two cells of value 2 into one of value 4, and
  the sum is 4 before and after, not 4 + 2 and not 4 + 4.
\<close>

theorem one_merge_keeps_the_sum:
  "tiltTrace [[2, 2, 0, 0], [0, 0, 0, 0], [0, 0, 0, 0], [0, 0, 0, 0]] (faceOf createBoard DirLeft) =
     [(Node 0 0, Node 1 0)] \<and>
   gridSum (tilt [[2, 2, 0, 0], [0, 0, 0, 0], [0, 0, 0, 0], [0, 0, 0, 0]]
              (faceOf createBoard DirLeft)) =
     gridSum [[2, 2, 0, 0], [0, 0, 0, 0], [0, 0, 0, 0], [0, 0, 0, 0]] \<and>
   gridSum (tilt [[2, 2, 0, 0], [0, 0, 0, 0], [0, 0, 0, 0], [0, 0, 0, 0]]
              (faceOf createBoard DirLeft)) \<noteq>
     gridSum [[2, 2, 0, 0], [0, 0, 0, 0], [0, 0, 0, 0], [0, 0, 0, 0]] +
       of_nat (length (tiltTrace [[2, 2, 0, 0], [0, 0, 0, 0], [0, 0, 0, 0], [0, 0, 0, 0]]
                         (faceOf createBoard DirLeft))) * 2 \<and>
   gridSum (tilt [[2, 2, 0, 0], [0, 0, 0, 0], [0, 0, 0, 0], [0, 0, 0, 0]]
              (faceOf createBoard DirLeft)) \<noteq>
     gridSum [[2, 2, 0, 0], [0, 0, 0, 0], [0, 0, 0, 0], [0, 0, 0, 0]] +
       of_nat (length (tiltTrace [[2, 2, 0, 0], [0, 0, 0, 0], [0, 0, 0, 0], [0, 0, 0, 0]]
                         (faceOf createBoard DirLeft))) * 4"
  by code_simp

text \<open>
  C4, amended. For every 4x4 grid and every direction, \<^verbatim>\<open>tilt\<close> leaves the sum of all
  cell values unchanged, and so does the merge pass of every line of the direction: a
  merge zeroes one cell of value v and doubles the other from v to 2 v, and the shift pass
  only swaps cells. The sum changes neither by merging nor by sliding.
\<close>

theorem tilt_preserves_sum:
  assumes "wf_grid g"
  shows "gridSum (tilt g (faceOf createBoard d)) = gridSum g \<and>
         (\<forall>l\<in>set (faceOf createBoard d). gridSum (mergeLoop g l l) = gridSum g)"
proof
  let ?f = "faceOf createBoard d"
  have gf: "goodFace ?f" by (rule goodFace_createBoard)
  have "gridSum (tilt g ?f) = gridSum g \<and> wf_grid (tilt g ?f)"
  proof (rule tilt_rule[where P = "\<lambda>h. gridSum h = gridSum g"])
    fix h an bn
    assume "gridSum h = gridSum g" "wf_grid h" "an \<in> set (concat ?f)" "bn \<in> set (concat ?f)"
      "an \<noteq> bn" "cell h bn = cell h an"
    then show "gridSum (mergeCells h an bn) = gridSum g"
      using goodFace_inRange[OF gf] by (simp add: gridSum_mergeCells)
  next
    fix h an bn
    assume "gridSum h = gridSum g" "wf_grid h" "an \<in> set (concat ?f)" "bn \<in> set (concat ?f)"
      "an \<noteq> bn"
    then show "gridSum (swapCells h an bn) = gridSum g"
      using goodFace_inRange[OF gf] by (simp add: gridSum_swapCells)
  qed (use assms goodFace_distinct_lines[OF gf] in auto)
  then show "gridSum (tilt g ?f) = gridSum g" ..
  show "\<forall>l\<in>set ?f. gridSum (mergeLoop g l l) = gridSum g"
  proof
    fix l assume l: "l \<in> set ?f"
    have "gridSum (mergeLoop g l l) = gridSum g \<and> wf_grid (mergeLoop g l l)"
    proof (rule mergeLoop_rule[where P = "\<lambda>h. gridSum h = gridSum g" and ?a0.0 = l])
      fix h an bn
      assume "gridSum h = gridSum g" "wf_grid h" "an \<in> set l" "bn \<in> set l"
        "an \<noteq> bn" "cell h bn = cell h an"
      then show "gridSum (mergeCells h an bn) = gridSum g"
        using goodFace_line(3)[OF gf l] by (simp add: gridSum_mergeCells)
    qed (use assms goodFace_line(1)[OF gf l] in auto)
    then show "gridSum (mergeLoop g l l) = gridSum g" ..
  qed
qed

theorem tilt_preserves_sum_witness:
  "wf_grid [[2, 2, 4, 0], [0, 8, 0, 8], [0, 0, 0, 0], [2, 0, 2, 2]] \<and>
   gridSum (tilt [[2, 2, 4, 0], [0, 8, 0, 8], [0, 0, 0, 0], [2, 0, 2, 2]]
              (faceOf createBoard DirRight)) =
     gridSum [[2, 2, 4, 0], [0, 8, 0, 8], [0, 0, 0, 0], [2, 0, 2, 2]]"
proof -
  let ?g = "[[2, 2, 4, 0], [0, 8, 0, 8], [0, 0, 0, 0], [2, 0, 2, 2]] :: grid"
  have wf: "wf_grid ?g"
    by (simp add: wf_grid_def)
  from tilt_preserves_sum[OF wf, of DirRight] wf
  show ?thesis by blast
qed

subsection \<open>Compaction\<close>

text \<open>
  C5. For every 4x4 grid and every direction, after \<^verbatim>\<open>tilt\<close> the values of every line
  of the direction, read from the head of the line, are compacted: nothing but zeros
  follows the leading non-zero values (by lemma \<open>compacted_iff\<close>, no zero cell comes
  before a non-zero cell).
\<close>

theorem tilt_compacts_every_line:
  assumes "wf_grid g"
  shows "\<forall>l\<in>set (faceOf createBoard d).
           compacted (map (cell (tilt g (faceOf createBoard d))) l)"
proof
  fix l
  let ?f = "faceOf createBoard d"
  assume l: "l \<in> set ?f"
  have gf: "goodFace ?f" by (rule goodFace_createBoard)
  have d: "distinct (concat ?f)" and r: "\<forall>n\<in>set (concat ?f). inRange n"
    using gf goodFace_inRange[OF gf] by (auto simp: goodFace_def)
  from tilt_line[OF assms d r l] obtain h where
    h: "wf_grid h" "map (cell (tilt g ?f)) l = map (cell (tiltList h l)) l"
    by blast
  have "compacted (map (cell (tiltList h l)) l)"
    using h(1) goodFace_line[OF gf l] by (intro tiltList_compacts) auto
  then show "compacted (map (cell (tilt g ?f)) l)"
    by (simp only: h(2))
qed

theorem tilt_compacts_every_line_witness:
  "wf_grid [[2, 0, 4, 0], [0, 8, 0, 8], [0, 0, 0, 2], [2, 0, 2, 2]] \<and>
   list_all
     (\<lambda>l. compacted (map (cell (tilt [[2, 0, 4, 0], [0, 8, 0, 8], [0, 0, 0, 2], [2, 0, 2, 2]]
                                  (faceOf createBoard DirUp))) l))
     (faceOf createBoard DirUp)"
proof -
  let ?g = "[[2, 0, 4, 0], [0, 8, 0, 8], [0, 0, 0, 2], [2, 0, 2, 2]] :: grid"
  have wf: "wf_grid ?g"
    by (simp add: wf_grid_def)
  from tilt_compacts_every_line[OF wf, of DirUp] wf
  show ?thesis by (simp add: list_all_iff)
qed

subsection \<open>The spawn after an effective move\<close>

text \<open>
  C6. For every 4x4 grid and every direction: if \<^verbatim>\<open>tilt\<close> changes at least one cell,
  the grid it leaves has a zero cell, so the list of empty cells that \<^verbatim>\<open>place\<close> draws
  from is not empty; and \<^verbatim>\<open>Update\<close>, which calls \<^verbatim>\<open>place\<close> only after a tilt that
  changed the grid, returns normally on every message and every draw: the panic of
  \<^verbatim>\<open>Intn\<close> is not reached from the driver.
\<close>

theorem changed_tilt_leaves_empty_cell:
  assumes "wf_grid g"
  shows "(changed (tilt g (faceOf createBoard d)) g \<longrightarrow>
            (\<exists>n. inRange n \<and> cell (tilt g (faceOf createBoard d)) n = 0) \<and>
            options (tilt g (faceOf createBoard d)) \<noteq> []) \<and>
         (\<exists>b' c. Update r m (createBoard\<lparr>grid := g\<rparr>) = Inr (b', c))"
proof (intro conjI impI)
  let ?f = "faceOf createBoard d"
  assume "changed (tilt g ?f) g"
  then have "tilt g ?f \<noteq> g"
    using assms by (simp add: changed_wf wf_tilt goodFace_createBoard)
  with tilt_changed_zero[OF assms goodFace_createBoard, of d]
  show "\<exists>n. inRange n \<and> cell (tilt g ?f) n = 0" by blast
  then show "options (tilt g ?f) \<noteq> []"
    using set_options_wf[OF wf_tilt[OF assms goodFace_createBoard], of d] by auto
next
  let ?b = "createBoard\<lparr>grid := g\<rparr>"
  have "\<exists>b' c. step r d' ?b = Inr (b', c)" for d'
    by (rule step_total) (simp_all add: assms goodFace_createBoard)
  then show "\<exists>b' c. Update r m ?b = Inr (b', c)"
    using Update_cases[of r m ?b] by metis
qed

theorem changed_tilt_leaves_empty_cell_witness:
  "wf_grid [[2, 2, 4, 0], [0, 0, 0, 0], [0, 0, 0, 0], [0, 0, 0, 0]] \<and>
   changed (tilt [[2, 2, 4, 0], [0, 0, 0, 0], [0, 0, 0, 0], [0, 0, 0, 0]]
              (faceOf createBoard DirLeft))
     [[2, 2, 4, 0], [0, 0, 0, 0], [0, 0, 0, 0], [0, 0, 0, 0]] \<and>
   (\<exists>n. inRange n \<and>
        cell (tilt [[2, 2, 4, 0], [0, 0, 0, 0], [0, 0, 0, 0], [0, 0, 0, 0]]
                (faceOf createBoard DirLeft)) n = 0) \<and>
   options (tilt [[2, 2, 4, 0], [0, 0, 0, 0], [0, 0, 0, 0], [0, 0, 0, 0]]
              (faceOf createBoard DirLeft)) \<noteq> [] \<and>
   (\<exists>b' c. Update 7 (KeyMsg ''left'')
              (createBoard\<lparr>grid := [[2, 2, 4, 0], [0, 0, 0, 0], [0, 0, 0, 0], [0, 0, 0, 0]]\<rparr>)
            = Inr (b', c))"
proof -
  let ?g = "[[2, 2, 4, 0], [0, 0, 0, 0], [0, 0, 0, 0], [0, 0, 0, 0]] :: grid"
  have wf: "wf_grid ?g"
    by (simp add: wf_grid_def)
  have ch: "changed (tilt ?g (faceOf createBoard DirLeft)) ?g"
    by code_simp
  from changed_tilt_leaves_empty_cell[OF wf, of DirLeft 7 "KeyMsg ''left''"] wf ch
  show ?thesis by blast
qed

subsection \<open>A direction that moves nothing\<close>

text \<open>
  C7. For every 4x4 grid in which every line of a direction is compacted and has no two
  equal neighbouring non-zero values, \<^verbatim>\<open>tilt\<close> in that direction returns the same grid,
  \<^verbatim>\<open>changed\<close> is false, and \<^verbatim>\<open>Update\<close> on a key of the direction returns the board
  as it was, without placing a tile.
\<close>

theorem settled_grid_is_unchanged:
  assumes "wf_grid g"
    and "\<forall>l\<in>set (faceOf createBoard d).
           compacted (map (cell g) l) \<and> noMerge (map (cell g) l)"
    and "s \<in> set (keys d)"
  shows "tilt g (faceOf createBoard d) = g \<and>
         \<not> changed (tilt g (faceOf createBoard d)) g \<and>
         Update r (KeyMsg s) (createBoard\<lparr>grid := g\<rparr>) = Inr (createBoard\<lparr>grid := g\<rparr>, NoCmd)"
proof -
  have t: "tilt g (faceOf createBoard d) = g"
    using assms(2) by (rule tilt_noop)
  then show ?thesis
    using assms(3) by (simp add: Update_key step_def changed_same)
qed

theorem settled_grid_is_unchanged_witness:
  "wf_grid [[2, 4, 2, 0], [4, 0, 0, 0], [0, 0, 0, 0], [8, 2, 0, 0]] \<and>
   list_all (\<lambda>l. compacted (map (cell [[2, 4, 2, 0], [4, 0, 0, 0], [0, 0, 0, 0], [8, 2, 0, 0]]) l) \<and>
                  noMerge (map (cell [[2, 4, 2, 0], [4, 0, 0, 0], [0, 0, 0, 0], [8, 2, 0, 0]]) l))
     (faceOf createBoard DirLeft) \<and>
   tilt [[2, 4, 2, 0], [4, 0, 0, 0], [0, 0, 0, 0], [8, 2, 0, 0]] (faceOf createBoard DirLeft) =
     [[2, 4, 2, 0], [4, 0, 0, 0], [0, 0, 0, 0], [8, 2, 0, 0]] \<and>
   Update 1 (KeyMsg ''h'')
       (createBoard\<lparr>grid := [[2, 4, 2, 0], [4, 0, 0, 0], [0, 0, 0, 0], [8, 2, 0, 0]]\<rparr>) =
     Inr (createBoard\<lparr>grid := [[2, 4, 2, 0], [4, 0, 0, 0], [0, 0, 0, 0], [8, 2, 0, 0]]\<rparr>, NoCmd)"
proof -
  let ?g = "[[2, 4, 2, 0], [4, 0, 0, 0], [0, 0, 0, 0], [8, 2, 0, 0]] :: grid"
  have wf: "wf_grid ?g"
    by (simp add: wf_grid_def)
  have pre: "list_all (\<lambda>l. compacted (map (cell ?g) l) \<and> noMerge (map (cell ?g) l))
               (faceOf createBoard DirLeft)"
    by (simp add: left_createBoard compacted_def cell_def)
  then have pre': "\<forall>l\<in>set (faceOf createBoard DirLeft).
                     compacted (map (cell ?g) l) \<and> noMerge (map (cell ?g) l)"
    by (simp add: list_all_iff)
  have k: "''h'' \<in> set (keys DirLeft)" by simp
  from settled_grid_is_unchanged[OF wf pre' k, of 1] wf pre
  show ?thesis by simp
qed

subsection \<open>The tiles of a run\<close>

text \<open>
  C8. On every board of a run, which starts with \<^verbatim>\<open>createModel\<close> and continues with
  \<^verbatim>\<open>Update\<close> on arbitrary messages and draws, the grid has four rows of four cells and
  every cell is 0 or a power of two \<open>2 ^ k\<close> with \<open>1 \<le> k \<le> 16\<close>; the doubling never
  wraps around.
\<close>

theorem reachable_cells_are_tiles:
  assumes "reachable b"
  shows "wf_grid (grid b) \<and>
         (\<forall>n. inRange n \<longrightarrow>
            cell (grid b) n = 0 \<or> (\<exists>k. 1 \<le> k \<and> k \<le> 16 \<and> cell (grid b) n = 2 ^ k))"
proof -
  from reachable_boardOK[OF assms] have t: "tiles (grid b)"
    by (simp add: boardOK_def)
  then have "wf_grid (grid b)"
    by (simp add: tiles_def)
  with tiles_bound[OF t] show ?thesis
    by blast
qed

theorem reachable_cells_are_tiles_witness:
  "reachable (createBoard\<lparr>grid := [[4, 2, 0, 0], [0, 0, 0, 0], [0, 0, 0, 0], [0, 0, 0, 0]]\<rparr>) \<and>
   wf_grid [[4, 2, 0, 0], [0, 0, 0, 0], [0, 0, 0, 0], [0, 0, 0, 0]] \<and>
   list_all
     (\<lambda>n. cell [[4, 2, 0, 0], [0, 0, 0, 0], [0, 0, 0, 0], [0, 0, 0, 0]] n = 0 \<or>
          (\<exists>k. 1 \<le> k \<and> k \<le> 16 \<and>
               cell [[4, 2, 0, 0], [0, 0, 0, 0], [0, 0, 0, 0], [0, 0, 0, 0]] n = 2 ^ k))
     rowMajor"
proof -
  let ?b0 = "createBoard\<lparr>grid := [[2, 2, 0, 0], [0, 0, 0, 0], [0, 0, 0, 0], [0, 0, 0, 0]]\<rparr>"
  let ?b1 = "createBoard\<lparr>grid := [[4, 2, 0, 0], [0, 0, 0, 0], [0, 0, 0, 0], [0, 0, 0, 0]]\<rparr>"
  have "createModel 0 0 = Inr ?b0"
    by code_simp
  then have "reachable ?b0"
    by (rule reachable.start)
  moreover have "Update 0 (KeyMsg ''left'') ?b0 = Inr (?b1, NoCmd)"
    by code_simp
  ultimately have r: "reachable ?b1"
    by (rule reachable.update)
  from reachable_cells_are_tiles[OF r] r
  show ?thesis by (simp add: all_inRange)
qed

subsection \<open>place\<close>

text \<open>
  C9. For every 4x4 grid with at least one zero cell, \<^verbatim>\<open>place\<close> returns the grid with
  one cell set to 2. That cell is one of the zero cells, which \<^verbatim>\<open>place\<close> lists in
  row-major order; it held 0 before the call and holds 2 after it, and every other cell
  keeps its value.
\<close>

theorem place_sets_one_empty_cell:
  assumes "wf_grid g" "\<exists>n. inRange n \<and> cell g n = 0"
  shows "\<exists>n. place r g = Inr (setCell g n 2) \<and>
             n \<in> set (filter (\<lambda>n. cell g n = 0) rowMajor) \<and>
             options g = filter (\<lambda>n. cell g n = 0) rowMajor \<and>
             inRange n \<and> cell g n = 0 \<and> cell (setCell g n 2) n = 2 \<and>
             (\<forall>m. inRange m \<and> m \<noteq> n \<longrightarrow> cell (setCell g n 2) m = cell g m)"
proof -
  let ?n = "options g ! (r mod length (options g))"
  from assms have ne: "options g \<noteq> []"
    using set_options_wf[OF assms(1)] by auto
  then have "?n \<in> set (options g)" by simp
  then have n: "inRange ?n" "cell g ?n = 0"
    using set_options_wf[OF assms(1)] by auto
  have "place r g = Inr (setCell g ?n 2)"
    using ne by (rule place_Inr)
  moreover have "?n \<in> set (filter (\<lambda>n. cell g n = 0) rowMajor)"
    using \<open>?n \<in> set (options g)\<close> options_rowMajor[OF assms(1)] by simp
  ultimately show ?thesis
    using n assms(1) options_rowMajor[OF assms(1)] by (intro exI[of _ ?n]) (simp add: cell_setCell)
qed

theorem place_sets_one_empty_cell_witness:
  "wf_grid [[2, 0, 0, 0], [0, 4, 0, 0], [0, 0, 0, 0], [0, 0, 0, 2]] \<and>
   (\<exists>n. inRange n \<and> cell [[2, 0, 0, 0], [0, 4, 0, 0], [0, 0, 0, 0], [0, 0, 0, 2]] n = 0) \<and>
   (\<exists>n. place 5 [[2, 0, 0, 0], [0, 4, 0, 0], [0, 0, 0, 0], [0, 0, 0, 2]] =
          Inr (setCell [[2, 0, 0, 0], [0, 4, 0, 0], [0, 0, 0, 0], [0, 0, 0, 2]] n 2) \<and>
        inRange n \<and>
        cell [[2, 0, 0, 0], [0, 4, 0, 0], [0, 0, 0, 0], [0, 0, 0, 2]] n = 0)"
proof -
  let ?g = "[[2, 0, 0, 0], [0, 4, 0, 0], [0, 0, 0, 0], [0, 0, 0, 2]] :: grid"
  have wf: "wf_grid ?g"
    by (simp add: wf_grid_def)
  have z: "\<exists>n. inRange n \<and> cell ?g n = 0"
    by (rule exI[of _ "Node 1 0"]) (simp add: inRange_def cell_def)
  from place_sets_one_empty_cell[OF wf z, of 5] wf z
  show ?thesis by blast
qed

text \<open>
  C10. For every 4x4 grid, \<^verbatim>\<open>place\<close> panics (in \<^verbatim>\<open>Intn\<close>, called with 0) exactly
  when the grid has no zero cell, and returns a grid whenever there is a zero cell.
\<close>

theorem place_panics_iff_full:
  assumes "wf_grid g"
  shows "(place r g = Inl IntnPanic \<longleftrightarrow> (\<forall>n. inRange n \<longrightarrow> cell g n \<noteq> 0)) \<and>
         ((\<exists>n. inRange n \<and> cell g n = 0) \<longrightarrow> (\<exists>g'. place r g = Inr g'))"
proof -
  have "options g = [] \<longleftrightarrow> set (options g) = {}"
    by simp
  also have "\<dots> \<longleftrightarrow> (\<forall>n. inRange n \<longrightarrow> cell g n \<noteq> 0)"
    unfolding set_options_wf[OF assms] by blast
  finally have full: "options g = [] \<longleftrightarrow> (\<forall>n. inRange n \<longrightarrow> cell g n \<noteq> 0)" .
  show ?thesis
  proof (cases "options g = []")
    case True
    with full show ?thesis by (auto simp: place_Inl)
  next
    case False
    with full show ?thesis by (auto simp: place_Inl place_Inr)
  qed
qed

theorem place_panics_iff_full_witness:
  "wf_grid [[2, 4, 2, 4], [4, 2, 4, 2], [2, 4, 2, 4], [4, 2, 4, 2]] \<and>
   place 3 [[2, 4, 2, 4], [4, 2, 4, 2], [2, 4, 2, 4], [4, 2, 4, 2]] = Inl IntnPanic \<and>
   wf_grid [[2, 4, 2, 4], [4, 2, 4, 2], [2, 4, 2, 4], [4, 2, 4, 0]] \<and>
   (\<exists>g'. place 3 [[2, 4, 2, 4], [4, 2, 4, 2], [2, 4, 2, 4], [4, 2, 4, 0]] = Inr g')"
proof -
  let ?full = "[[2, 4, 2, 4], [4, 2, 4, 2], [2, 4, 2, 4], [4, 2, 4, 2]] :: grid"
  let ?hole = "[[2, 4, 2, 4], [4, 2, 4, 2], [2, 4, 2, 4], [4, 2, 4, 0]] :: grid"
  have wf1: "wf_grid ?full" and wf2: "wf_grid ?hole"
    by (simp_all add: wf_grid_def)
  have full: "\<forall>n. inRange n \<longrightarrow> cell ?full n \<noteq> 0"
    unfolding all_inRange by (simp add: rowMajor_nodes cell_def)
  have hole: "\<exists>n. inRange n \<and> cell ?hole n = 0"
    unfolding ex_inRange by (simp add: rowMajor_nodes cell_def)
  from place_panics_iff_full[OF wf1, of 3] place_panics_iff_full[OF wf2, of 3] wf1 wf2 full hole
  show ?thesis by blast
qed

end
